theory Spec2Isabelle
  imports Main "HOL-Library.Word"
begin

unbundle bit_operations_syntax

section \<open>Registers, location handles and platform constants\<close>

text \<open>
  General registers are numbered as the AArch64 port numbers them: \<open>r0\<close> .. \<open>r30\<close>,
  with the stack pointer as register 31.  The vector registers \<open>v0\<close> .. \<open>v31\<close> have
  their own numbering.
\<close>

datatype Register = R nat
datatype FloatRegister = V nat

abbreviation r0 :: Register where "r0 \<equiv> R 0"
abbreviation r9 :: Register where "r9 \<equiv> R 9"
abbreviation r10 :: Register where "r10 \<equiv> R 10"
abbreviation r11 :: Register where "r11 \<equiv> R 11"
abbreviation r12 :: Register where "r12 \<equiv> R 12"
abbreviation r13 :: Register where "r13 \<equiv> R 13"
abbreviation r14 :: Register where "r14 \<equiv> R 14"
abbreviation r15 :: Register where "r15 \<equiv> R 15"
abbreviation r19 :: Register where "r19 \<equiv> R 19"
abbreviation c_rarg0 :: Register where "c_rarg0 \<equiv> R 0"
abbreviation rscratch1 :: Register where "rscratch1 \<equiv> R 8"
abbreviation rscratch2 :: Register where "rscratch2 \<equiv> R 9"
abbreviation rthread :: Register where "rthread \<equiv> R 28"
abbreviation rfp :: Register where "rfp \<equiv> R 29"
abbreviation lr :: Register where "lr \<equiv> R 30"
abbreviation sp :: Register where "sp \<equiv> R 31"

definition wordSize :: int where "wordSize = 8"
definition LogBytesPerWord :: nat where "LogBytesPerWord = 3"
definition LogBytesPerInt :: nat where "LogBytesPerInt = 2"
definition float_reg_size :: int where "float_reg_size = 16"
definition sizeof_uintptr_t :: int where "sizeof_uintptr_t = 8"

text \<open>
  A \<open>VMReg\<close> is the location handle of the calling conventions: a general register, a
  vector register, a stack slot at a byte offset from the frame base, or the invalid
  handle.
\<close>

datatype VMReg = VMBad | VMGpr Register | VMFpr FloatRegister | VMStack nat

definition as_VMReg :: "Register \<Rightarrow> VMReg" where
  "as_VMReg r = VMGpr r"

definition is_valid :: "VMReg \<Rightarrow> bool" where
  "is_valid v = (v \<noteq> VMBad)"

datatype BasicType =
    T_BOOLEAN | T_CHAR | T_FLOAT | T_DOUBLE | T_BYTE | T_SHORT | T_INT | T_LONG
  | T_OBJECT | T_ARRAY | T_VOID | T_ADDRESS | T_NARROWOOP | T_METADATA
  | T_NARROWKLASS | T_CONFLICT | T_ILLEGAL

datatype error = AssertionFailed string | ShouldNotReachHere | FatalError string

type_synonym label = string

datatype Address =
    BaseOff Register int
  | PreIdx Register int
  | PostIdx Register int
  | RuntimeAddress "64 word"

datatype Condition = EQ | NE

text \<open>
  One constructor for each assembler operation the two generators call.  The code
  buffer is the list of the operations emitted so far, and a code offset counts emitted
  operations.
\<close>

datatype instr =
    Enter
  | Leave
  | Ret Register
  | Mov_rr Register Register
  | Mov_ri Register "64 word"
  | Str Register Address
  | Ldr Register Address
  | Strw Register Address
  | Ldrw Register Address
  | Ldrb Register Address
  | Strq FloatRegister Address
  | Ldrq FloatRegister Address
  | Add_rri Register Register "64 word"
  | Andr_rri Register Register "64 word"
  | Sub_rrr Register Register Register
  | Sub_rri Register Register "64 word"
  | Lsr Register Register nat
  | Lea Register Address
  | Stlrw Register Register
  | Bind label
  | Cbz Register label
  | Cbnzw Register label
  | B label
  | Br Condition label
  | Cmpw Register "32 word"
  | Blr Register
  | C2bool Register
  | Ubfx Register Register nat nat
  | Sbfx Register Register nat nat
  | Membar nat
  | VerifySveVectorLength Register
  | SafepointPoll label bool bool bool Register
  | SetLastJavaFrame Register Register int Register
  | ResetLastJavaFrame bool
  | RtCall "64 word" Register
  | MoveLoc VMReg VMReg

section \<open>The context-buffer adapter\<close>

record ABIDescriptor =
  integer_argument_registers :: "Register list"
  integer_return_registers :: "Register list"
  vector_argument_registers :: "FloatRegister list"
  vector_return_registers :: "FloatRegister list"
  stack_alignment_bytes :: int
  shadow_space_bytes :: int

record BufferLayout =
  stack_args_bytes :: int
  stack_args :: int
  arguments_vector :: int
  arguments_integer :: int
  arguments_next_pc :: int
  returns_integer :: int
  returns_vector :: int

text \<open>C++ \<open>%\<close> truncates towards zero.\<close>

definition c_rem :: "int \<Rightarrow> int \<Rightarrow> int" where
  "c_rem a b = sgn a * (\<bar>a\<bar> mod \<bar>b\<bar>)"

text \<open>
  \<open>ProgrammableInvoker::Generator::generate\<close>.  The two assertions are the fatal
  generation-time conditions; otherwise the result is the emitted code.
\<close>

definition ProgrammableInvoker_generate :: "ABIDescriptor \<Rightarrow> BufferLayout \<Rightarrow> error + instr list" where
  "ProgrammableInvoker_generate abi layout =
    (let Rctx = r10; Rstack_size = r11;
         Rwords = r12; Rtmp = r13;
         Rsrc_ptr = r14; Rdst_ptr = r15
     in
     if \<not> distinct [Rctx, Rstack_size, rscratch1, rscratch2]
       then Inl (AssertionFailed ''registers must be different'')
     else if c_rem (stack_alignment_bytes abi) 16 \<noteq> 0
       then Inl (AssertionFailed ''stack must be 16 byte aligned'')
     else if shadow_space_bytes abi \<noteq> 0
       then Inl (AssertionFailed ''shadow space not supported on AArch64'')
     else Inr (
       [ Enter,
         \<comment> \<open>init_and_alloc_stack\<close>
         Mov_rr Rctx c_rarg0,
         Str Rctx (PreIdx sp (- 2 * wordSize)),
         \<comment> \<open>allocate_stack\<close>
         Ldr Rstack_size (BaseOff Rctx (stack_args_bytes layout)),
         Add_rri rscratch2 Rstack_size (word_of_int (stack_alignment_bytes abi - 1)),
         Andr_rri rscratch2 rscratch2 (word_of_int (- stack_alignment_bytes abi)),
         Sub_rrr sp sp rscratch2,
         \<comment> \<open>load_arguments\<close>
         Ldr Rsrc_ptr (BaseOff Rctx (stack_args layout)),
         Lsr Rwords Rstack_size LogBytesPerWord,
         Mov_rr Rdst_ptr sp,
         Bind ''Lnext'',
         Cbz Rwords ''Ldone'',
         Ldr Rtmp (PostIdx Rsrc_ptr wordSize),
         Str Rtmp (PostIdx Rdst_ptr wordSize),
         Sub_rri Rwords Rwords 1,
         B ''Lnext'',
         Bind ''Ldone'' ]
       @ map (\<lambda>i. Ldrq (vector_argument_registers abi ! i)
                 (BaseOff Rctx (arguments_vector layout + int i * float_reg_size)))
           [0 ..< length (vector_argument_registers abi)]
       @ map (\<lambda>i. Ldr (integer_argument_registers abi ! i)
                 (BaseOff Rctx (arguments_integer layout + int i * sizeof_uintptr_t)))
           [0 ..< length (integer_argument_registers abi)]
       @ [ \<comment> \<open>call target function\<close>
           Ldr rscratch2 (BaseOff Rctx (arguments_next_pc layout)),
           Blr rscratch2,
           Ldr Rctx (BaseOff rfp (- 2 * wordSize)) ]
       \<comment> \<open>store_registers\<close>
       @ map (\<lambda>i. Str (integer_return_registers abi ! i)
                 (BaseOff Rctx (returns_integer layout + int i * sizeof_uintptr_t)))
           [0 ..< length (integer_return_registers abi)]
       @ map (\<lambda>i. Strq (vector_return_registers abi ! i)
                 (BaseOff Rctx (returns_vector layout + int i * float_reg_size)))
           [0 ..< length (vector_return_registers abi)]
       @ [ Leave, Ret lr ]))"

section \<open>The argument shuffle planner\<close>

type_synonym move = "VMReg \<times> VMReg"

text \<open>
  A move program runs on a register/stack file, one move after the other.
\<close>

definition exec_move :: "move \<Rightarrow> (VMReg \<Rightarrow> 64 word) \<Rightarrow> (VMReg \<Rightarrow> 64 word)" where
  "exec_move m f = f (snd m := f (fst m))"

definition exec_moves :: "move list \<Rightarrow> (VMReg \<Rightarrow> 64 word) \<Rightarrow> (VMReg \<Rightarrow> 64 word)" where
  "exec_moves prog f = fold exec_move prog f"

definition subst_src :: "VMReg \<Rightarrow> VMReg \<Rightarrow> move \<Rightarrow> move" where
  "subst_src a t m = (if fst m = a then (t, snd m) else m)"

text \<open>
  Modelled from the spec: the move-order computation of the shuffle planner, which is
  not part of this file.  A pending move whose destination no pending move still reads
  is emitted at once.  When none is left the pending moves form cycles: the source of
  one edge is stored into the scratch location, and that edge then reads the scratch
  location, which frees the rest of the chain.  A scratch location that is still being
  read when another cycle has to be broken is the fatal condition of the spec.
\<close>

function compute_move_order :: "VMReg \<Rightarrow> move list \<Rightarrow> error + move list" where
  "compute_move_order tmp ms =
    (if ms = [] then Inr []
     else
       (case find (\<lambda>m. snd m \<notin> set (map fst ms)) ms of
          Some m \<Rightarrow> map_sum id ((#) m) (compute_move_order tmp (remove1 m ms))
        | None \<Rightarrow>
            if tmp \<in> set (map fst ms)
            then Inl (FatalError ''scratch location busy'')
            else map_sum id ((#) (fst (hd ms), tmp))
                   (compute_move_order tmp (map (subst_src (fst (hd ms)) tmp) ms))))"
  by pat_completeness auto
termination
proof (relation "measure (\<lambda>(tmp, ms). 2 * length ms + (if tmp \<in> set (map fst ms) then 0 else 1))")
  show "wf (measure (\<lambda>(tmp, ms). 2 * length ms + (if tmp \<in> set (map fst ms) then 0 else 1)))"
    by simp
next
  fix tmp :: VMReg and ms :: "move list" and m :: move
  assume ne: "ms \<noteq> []" and f: "find (\<lambda>m. snd m \<notin> set (map fst ms)) ms = Some m"
  from f have "m \<in> set ms"
    by (auto simp: find_Some_iff)
  then have "length ms = Suc (length (remove1 m ms))"
    using length_pos_if_in_set [of m ms] by (simp add: length_remove1)
  then show "((tmp, remove1 m ms), (tmp, ms))
      \<in> measure (\<lambda>(tmp, ms). 2 * length ms + (if tmp \<in> set (map fst ms) then 0 else 1))"
    by auto
next
  fix tmp :: VMReg and ms :: "move list"
  assume ne: "ms \<noteq> []" and free: "tmp \<notin> set (map fst ms)"
  from ne have "hd ms \<in> set ms" by simp
  then have "subst_src (fst (hd ms)) tmp (hd ms) \<in> set (map (subst_src (fst (hd ms)) tmp) ms)"
    by simp
  then have "fst (subst_src (fst (hd ms)) tmp (hd ms))
      \<in> set (map fst (map (subst_src (fst (hd ms)) tmp) ms))"
    by (simp only: set_map image_eqI)
  then have "tmp \<in> set (map fst (map (subst_src (fst (hd ms)) tmp) ms))"
    by (simp add: subst_src_def)
  with free show "((tmp, map (subst_src (fst (hd ms)) tmp) ms), (tmp, ms))
      \<in> measure (\<lambda>(tmp, ms). 2 * length ms + (if tmp \<in> set (map fst ms) then 0 else 1))"
    by (simp add: image_image)
qed

declare compute_move_order.simps [simp del]

text \<open>C++ \<open>align_up\<close> and \<open>is_even\<close> on \<open>int\<close>.\<close>

definition align_up :: "int \<Rightarrow> int \<Rightarrow> int" where
  "align_up x a = (x + (a - 1)) AND NOT (a - 1)"

definition is_even :: "int \<Rightarrow> bool" where
  "is_even x = (x AND 1 = 0)"

text \<open>C++ \<open>/\<close> truncates towards zero.\<close>

definition c_div :: "int \<Rightarrow> int \<Rightarrow> int" where
  "c_div a b = sgn a * sgn b * (\<bar>a\<bar> div \<bar>b\<bar>)"

text \<open>
  Modelled from the spec: the stack slots (of four bytes) a destination handle needs
  beyond the registers: one machine word for a stack handle, nothing for a register.
\<close>

definition out_slots_of :: "VMReg \<Rightarrow> int" where
  "out_slots_of v = (case v of VMStack _ \<Rightarrow> 2 | _ \<Rightarrow> 0)"

record ArgumentShuffle =
  moves :: "move list"
  out_arg_stack_slots :: int

type_synonym CallConvClosure = "BasicType list \<Rightarrow> nat \<Rightarrow> VMReg"

text \<open>
  Modelled from the spec: the constructor of the shuffle planner, which is not part of
  this file.  The argument counts must match; the scratch location must not be a
  location of either convention; an invalid handle is absent; a destination equal to
  its source is no instruction; two values for one destination cannot be resolved.  The
  extra stack slots of the destination convention are rounded up to the stack
  alignment (four slots).
\<close>

definition ArgumentShuffle_new ::
  "BasicType list \<Rightarrow> nat \<Rightarrow> BasicType list \<Rightarrow> nat \<Rightarrow> CallConvClosure \<Rightarrow> CallConvClosure
    \<Rightarrow> VMReg \<Rightarrow> error + ArgumentShuffle" where
  "ArgumentShuffle_new in_sig num_in_args out_sig num_out_args input_conv output_conv shuffle_temp =
    (if num_in_args \<noteq> num_out_args then Inl (FatalError ''argument counts differ'')
     else
       let srcs = map (input_conv in_sig) [0 ..< num_in_args];
           dsts = map (output_conv out_sig) [0 ..< num_out_args];
           args = filter (\<lambda>m. is_valid (fst m) \<and> is_valid (snd m)) (zip srcs dsts);
           ms = filter (\<lambda>m. fst m \<noteq> snd m) args
       in
       if shuffle_temp \<in> set srcs \<union> set dsts
         then Inl (FatalError ''scratch location used by a calling convention'')
       else if \<not> distinct (map snd args)
         then Inl (FatalError ''two values for one destination'')
       else
         (case compute_move_order shuffle_temp ms of
            Inl e \<Rightarrow> Inl e
          | Inr prog \<Rightarrow>
              Inr \<lparr> moves = prog,
                    out_arg_stack_slots = align_up (sum_list (map out_slots_of dsts)) 4 \<rparr>))"

text \<open>Modelled from the spec: the planner's \<open>generate\<close> emits its move program.\<close>

definition emitted_moves :: "instr list \<Rightarrow> move list" where
  "emitted_moves c = concat (map (\<lambda>i. case i of MoveLoc src dst \<Rightarrow> [(src, dst)] | _ \<Rightarrow> []) c)"

definition ArgumentShuffle_generate :: "ArgumentShuffle \<Rightarrow> VMReg \<Rightarrow> int \<Rightarrow> int \<Rightarrow> instr list" where
  "ArgumentShuffle_generate sh tmp in_stk_bias out_stk_bias =
     map (\<lambda>m. MoveLoc (fst m) (snd m)) (moves sh)"

section \<open>The return-value spiller\<close>

text \<open>
  Modelled from the spec: the spiller, which is not part of this file.  A general
  register takes one word of the spill region and a vector register sixteen bytes; a
  handle that is no register is not live and takes nothing.
\<close>

definition pd_reg_size :: "VMReg \<Rightarrow> int" where
  "pd_reg_size v = (case v of VMGpr _ \<Rightarrow> 8 | VMFpr _ \<Rightarrow> 16 | _ \<Rightarrow> 0)"

record RegSpiller =
  spiller_regs :: "VMReg list"
  spill_size_bytes :: int

definition RegSpiller_new :: "VMReg list \<Rightarrow> RegSpiller" where
  "RegSpiller_new regs =
     \<lparr> spiller_regs = regs, spill_size_bytes = sum_list (map pd_reg_size regs) \<rparr>"

fun spill_code :: "bool \<Rightarrow> VMReg list \<Rightarrow> int \<Rightarrow> instr list" where
  "spill_code is_spill [] offset = []"
| "spill_code is_spill (v # vs) offset =
     (case v of
        VMGpr r \<Rightarrow> [if is_spill then Str r (BaseOff sp offset) else Ldr r (BaseOff sp offset)]
      | VMFpr q \<Rightarrow> [if is_spill then Strq q (BaseOff sp offset) else Ldrq q (BaseOff sp offset)]
      | _ \<Rightarrow> [])
     @ spill_code is_spill vs (offset + pd_reg_size v)"

definition generate_spill :: "RegSpiller \<Rightarrow> int \<Rightarrow> instr list" where
  "generate_spill spiller offset = spill_code True (spiller_regs spiller) offset"

definition generate_fill :: "RegSpiller \<Rightarrow> int \<Rightarrow> instr list" where
  "generate_fill spiller offset = spill_code False (spiller_regs spiller) offset"

section \<open>The full downcall generator\<close>

text \<open>
  What the generator and the assembler's macros take from declarations that are not
  part of this file: the two calling conventions, the values of the thread states and
  of the guard state, the offsets of the thread's fields and the entry addresses of the
  two runtime services.
\<close>

record platform =
  JavaCallConv :: CallConvClosure
  DowncallNativeCallConv :: "VMReg list \<Rightarrow> VMReg \<Rightarrow> CallConvClosure"
  thread_in_native :: "64 word"
  thread_in_native_trans :: "64 word"
  thread_in_Java :: "64 word"
  stack_guard_yellow_reserved_disabled :: "32 word"
  thread_state_offset :: int
  suspend_flags_offset :: int
  stack_guard_state_offset :: int
  last_Java_sp_offset :: int
  last_Java_fp_offset :: int
  last_Java_pc_offset :: int
  polling_word_offset :: int
  check_special_condition_for_native_trans :: "64 word"
  reguard_yellow_pages :: "64 word"
  arg_reg_save_area_bytes :: int

record NativeInvokerGenerator =
  m_signature :: "BasicType list"
  m_num_args :: nat
  m_ret_bt :: BasicType
  m_shadow_space_bytes :: int
  m_input_registers :: "VMReg list"
  m_output_registers :: "VMReg list"

text \<open>The constructor, with its assertion.\<close>

definition NativeInvokerGenerator_new ::
  "BasicType list \<Rightarrow> nat \<Rightarrow> BasicType \<Rightarrow> int \<Rightarrow> VMReg list \<Rightarrow> VMReg list
    \<Rightarrow> error + NativeInvokerGenerator" where
  "NativeInvokerGenerator_new signature num_args ret_bt shadow_space input_registers output_registers =
    (if length output_registers \<le> 1
        \<or> (length output_registers = 2 \<and> \<not> is_valid (output_registers ! 1))
     then Inr \<lparr> m_signature = signature, m_num_args = num_args, m_ret_bt = ret_bt,
                m_shadow_space_bytes = shadow_space,
                m_input_registers = input_registers, m_output_registers = output_registers \<rparr>
     else Inl (AssertionFailed ''no multi-reg returns''))"

definition target_uses_register :: "NativeInvokerGenerator \<Rightarrow> VMReg \<Rightarrow> bool" where
  "target_uses_register g reg =
     (reg \<in> set (m_input_registers g) \<or> reg \<in> set (m_output_registers g))"

datatype membar_kind = LoadLoad | LoadStore | StoreLoad | StoreStore

definition membar_mask :: "membar_kind list \<Rightarrow> nat" where
  "membar_mask ks = sum_list (map (\<lambda>k. case k of LoadLoad \<Rightarrow> 1 | LoadStore \<Rightarrow> 2
                                        | StoreLoad \<Rightarrow> 4 | StoreStore \<Rightarrow> 8) (remdups ks))"

record OopMap =
  om_frame_size :: int
  om_arg_count :: int
  om_entries :: "(VMReg \<times> nat) list"

definition OopMap_new :: "int \<Rightarrow> int \<Rightarrow> OopMap" where
  "OopMap_new frame_size arg_count =
     \<lparr> om_frame_size = frame_size, om_arg_count = arg_count, om_entries = [] \<rparr>"

type_synonym OopMapSet = "(int \<times> OopMap) list"

definition add_gc_map :: "OopMapSet \<Rightarrow> int \<Rightarrow> OopMap \<Rightarrow> OopMapSet" where
  "add_gc_map maps pc_offset m = maps @ [(pc_offset, m)]"

record generated =
  code :: "instr list"
  frame_complete :: int
  g_framesize :: int
  oop_maps :: OopMapSet

text \<open>The switch on the declared return type, after the native call.\<close>

definition unpack_native_results :: "BasicType \<Rightarrow> error + instr list" where
  "unpack_native_results ret_bt =
    (case ret_bt of
       T_BOOLEAN \<Rightarrow> Inr [C2bool r0]
     | T_CHAR \<Rightarrow> Inr [Ubfx r0 r0 0 16]
     | T_BYTE \<Rightarrow> Inr [Sbfx r0 r0 0 8]
     | T_SHORT \<Rightarrow> Inr [Sbfx r0 r0 0 16]
     | T_INT \<Rightarrow> Inr [Sbfx r0 r0 0 32]
     | T_DOUBLE \<Rightarrow> Inr []
     | T_FLOAT \<Rightarrow> Inr []
     | T_VOID \<Rightarrow> Inr []
     | T_LONG \<Rightarrow> Inr []
     | _ \<Rightarrow> Inl ShouldNotReachHere)"

text \<open>
  \<open>NativeInvokerGenerator::generate\<close>: \<open>start\<close> is the code buffer's position when
  generation begins, and \<open>pc\<close> is \<open>start\<close> plus the number of operations emitted.
\<close>

definition NativeInvokerGenerator_generate ::
  "platform \<Rightarrow> int \<Rightarrow> NativeInvokerGenerator \<Rightarrow> error + generated" where
  "NativeInvokerGenerator_generate vm start g =
    (let tmp1 = r9; tmp2 = r10 in
     if target_uses_register g (as_VMReg tmp1) then Inl (AssertionFailed ''conflict'')
     else if target_uses_register g (as_VMReg tmp2) then Inl (AssertionFailed ''conflict'')
     else if target_uses_register g (as_VMReg rthread) then Inl (AssertionFailed ''conflict'')
     else
     let framesize = 4;
         input_addr_reg = tmp1;
         shuffle_reg = r19;
         in_conv = JavaCallConv vm;
         out_conv = DowncallNativeCallConv vm (m_input_registers g) (as_VMReg input_addr_reg)
     in
     (case ArgumentShuffle_new (m_signature g) (m_num_args g) (m_signature g) (m_num_args g)
             in_conv out_conv (as_VMReg shuffle_reg) of
        Inl e \<Rightarrow> Inl e
      | Inr arg_shuffle \<Rightarrow>
     let out_reg_spiller = RegSpiller_new (m_output_registers g);
         spill_offset = 0
     in
     if m_shadow_space_bytes g \<noteq> 0
       then Inl (AssertionFailed ''not expecting shadow space on AArch64'')
     else
     let fs = align_up (framesize
                + drop_bit LogBytesPerInt (spill_size_bytes out_reg_spiller)
                + out_arg_stack_slots arg_shuffle) 4
     in
     if \<not> is_even (c_div fs 2) then Inl (AssertionFailed ''sp not 16-byte aligned'')
     else
     let maps0 = [];
         prolog =
           [ Enter,
             \<comment> \<open>lr and fp are already in place\<close>
             Sub_rri sp rfp (ucast (push_bit LogBytesPerInt ((word_of_int fs :: 32 word) - 4))) ];
         fc = (start + int (length prolog)) - start;
         the_pc = start + int (length prolog);
         maps1 = add_gc_map maps0 (the_pc - start) (OopMap_new fs 0)
     in
     (case unpack_native_results (m_ret_bt g) of
        Inl e \<Rightarrow> Inl e
      | Inr unpack \<Rightarrow>
     if arg_reg_save_area_bytes vm \<noteq> 0
       then Inl (AssertionFailed ''not expecting frame reg save area'')
     else
     Inr \<lparr> code =
             prolog
             @ [ SetLastJavaFrame sp rfp the_pc tmp1,
                 \<comment> \<open>State transition\<close>
                 Mov_ri tmp1 (thread_in_native vm),
                 Lea tmp2 (BaseOff rthread (thread_state_offset vm)),
                 Stlrw tmp1 tmp2 ]
             \<comment> \<open>argument shuffle\<close>
             @ ArgumentShuffle_generate arg_shuffle (as_VMReg shuffle_reg) 0 (m_shadow_space_bytes g)
             @ [ Blr input_addr_reg ]
             \<comment> \<open>Unpack native results.\<close>
             @ unpack
             @ [ Mov_ri tmp1 (thread_in_native_trans vm),
                 Strw tmp1 (BaseOff rthread (thread_state_offset vm)),
                 \<comment> \<open>Force this write out before the read below\<close>
                 Membar (membar_mask [LoadLoad, LoadStore, StoreLoad, StoreStore]),
                 VerifySveVectorLength tmp1,
                 SafepointPoll ''L_safepoint_poll_slow_path'' True True False tmp1,
                 Ldrw tmp1 (BaseOff rthread (suspend_flags_offset vm)),
                 Cbnzw tmp1 ''L_safepoint_poll_slow_path'',
                 Bind ''L_after_safepoint_poll'',
                 \<comment> \<open>change thread state\<close>
                 Mov_ri tmp1 (thread_in_Java vm),
                 Lea tmp2 (BaseOff rthread (thread_state_offset vm)),
                 Stlrw tmp1 tmp2,
                 \<comment> \<open>reguard stack check\<close>
                 Ldrb tmp1 (BaseOff rthread (stack_guard_state_offset vm)),
                 Cmpw tmp1 (stack_guard_yellow_reserved_disabled vm),
                 Br EQ ''L_reguard'',
                 Bind ''L_after_reguard'',
                 ResetLastJavaFrame True,
                 Leave, \<comment> \<open>required for proper stackwalking of RuntimeStub frame\<close>
                 Ret lr,
                 \<comment> \<open>L_safepoint_poll_slow_path\<close>
                 Bind ''L_safepoint_poll_slow_path'' ]
             \<comment> \<open>Need to save the native result registers around any runtime calls.\<close>
             @ generate_spill out_reg_spiller spill_offset
             @ [ Mov_rr c_rarg0 rthread,
                 Lea tmp1 (RuntimeAddress (check_special_condition_for_native_trans vm)),
                 Blr tmp1 ]
             @ generate_fill out_reg_spiller spill_offset
             @ [ B ''L_after_safepoint_poll'',
                 \<comment> \<open>L_reguard\<close>
                 Bind ''L_reguard'' ]
             @ generate_spill out_reg_spiller spill_offset
             @ [ RtCall (reguard_yellow_pages vm) tmp1 ]
             @ generate_fill out_reg_spiller spill_offset
             @ [ B ''L_after_reguard'' ],
           frame_complete = fc,
           g_framesize = fs,
           oop_maps = maps1 \<rparr>)))"

text \<open>The accessor \<open>framesize()\<close>, in words.\<close>

definition framesize_words :: "generated \<Rightarrow> int" where
  "framesize_words r = drop_bit (LogBytesPerWord - LogBytesPerInt) (g_framesize r)"

text \<open>
  \<open>ProgrammableInvoker::make_native_invoker\<close>: construct the generator, then
  generate.
\<close>

definition make_native_invoker ::
  "platform \<Rightarrow> int \<Rightarrow> BasicType list \<Rightarrow> nat \<Rightarrow> BasicType \<Rightarrow> int \<Rightarrow> VMReg list \<Rightarrow> VMReg list
    \<Rightarrow> error + generated" where
  "make_native_invoker vm start signature num_args ret_bt shadow_space input_registers output_registers =
    (case NativeInvokerGenerator_new signature num_args ret_bt shadow_space
            input_registers output_registers of
       Inl e \<Rightarrow> Inl e
     | Inr g \<Rightarrow> NativeInvokerGenerator_generate vm start g)"

section \<open>The machine the emitted code runs on\<close>

text \<open>
  Memory is byte addressed and little endian.  A register value of \<open>n\<close> bytes is
  stored byte by byte from the address upwards; addresses wrap around at 64 bits.
\<close>

type_synonym memory = "64 word \<Rightarrow> 8 word"

definition in_region :: "64 word \<Rightarrow> nat \<Rightarrow> 64 word \<Rightarrow> bool" where
  "in_region a n x = (unat (x - a) < n)"

definition store_le :: "memory \<Rightarrow> 64 word \<Rightarrow> nat \<Rightarrow> 'a::len word \<Rightarrow> memory" where
  "store_le m a n v = (\<lambda>x. if in_region a n x then ucast (drop_bit (8 * unat (x - a)) v) else m x)"

fun load_le :: "memory \<Rightarrow> 64 word \<Rightarrow> nat \<Rightarrow> 'a::len word" where
  "load_le m a 0 = 0"
| "load_le m a (Suc n) = ucast (m a) OR push_bit 8 (load_le m (a + 1) n)"

definition load64 :: "memory \<Rightarrow> 64 word \<Rightarrow> 64 word" where
  "load64 m a = load_le m a 8"

definition store64 :: "memory \<Rightarrow> 64 word \<Rightarrow> 64 word \<Rightarrow> memory" where
  "store64 m a v = store_le m a 8 v"

definition load128 :: "memory \<Rightarrow> 64 word \<Rightarrow> 128 word" where
  "load128 m a = load_le m a 16"

definition store128 :: "memory \<Rightarrow> 64 word \<Rightarrow> 128 word \<Rightarrow> memory" where
  "store128 m a v = store_le m a 16 v"

definition load32 :: "memory \<Rightarrow> 64 word \<Rightarrow> 32 word" where
  "load32 m a = load_le m a 4"

definition store32 :: "memory \<Rightarrow> 64 word \<Rightarrow> 32 word \<Rightarrow> memory" where
  "store32 m a v = store_le m a 4 v"

text \<open>
  Two regions are separated when the second starts at or after the end of the first and
  ends before wrapping around into it.
\<close>

definition separated :: "64 word \<Rightarrow> nat \<Rightarrow> 64 word \<Rightarrow> nat \<Rightarrow> bool" where
  "separated a n b k = (n \<le> unat (b - a) \<and> unat (b - a) + k \<le> 2 ^ 64)"

definition disjoint_regions :: "64 word \<Rightarrow> nat \<Rightarrow> 64 word \<Rightarrow> nat \<Rightarrow> bool" where
  "disjoint_regions a n b k = (separated a n b k \<or> separated b k a n)"

text \<open>
  The state of the machine.  \<open>calls\<close> records the calls that left the emitted code:
  the entry address and the first argument register.  \<open>returned_to\<close> is set once the
  code has returned to its caller.
\<close>

record machine =
  regs :: "Register \<Rightarrow> 64 word"
  vregs :: "FloatRegister \<Rightarrow> 128 word"
  mem :: memory
  flag_eq :: bool
  pc :: nat
  calls :: "(64 word \<times> 64 word) list"
  returned_to :: "64 word option"

text \<open>
  Code outside the emitted code, the native function and the runtime services, is a
  function on the machine state for each entry address.
\<close>

type_synonym extern = "64 word \<Rightarrow> machine \<Rightarrow> machine"

definition set_reg :: "Register \<Rightarrow> 64 word \<Rightarrow> machine \<Rightarrow> machine" where
  "set_reg r v s = s\<lparr>regs := (regs s)(r := v)\<rparr>"

definition set_vreg :: "FloatRegister \<Rightarrow> 128 word \<Rightarrow> machine \<Rightarrow> machine" where
  "set_vreg q v s = s\<lparr>vregs := (vregs s)(q := v)\<rparr>"

definition set_mem :: "memory \<Rightarrow> machine \<Rightarrow> machine" where
  "set_mem m s = s\<lparr>mem := m\<rparr>"

text \<open>
  An address operand gives the effective address and the state after the write-back of
  the base register.
\<close>

fun ea :: "Address \<Rightarrow> machine \<Rightarrow> 64 word \<times> machine" where
  "ea (BaseOff b off) s = (regs s b + word_of_int off, s)"
| "ea (PreIdx b off) s = (regs s b + word_of_int off, set_reg b (regs s b + word_of_int off) s)"
| "ea (PostIdx b off) s = (regs s b, set_reg b (regs s b + word_of_int off) s)"
| "ea (RuntimeAddress a) s = (a, s)"

fun get_loc :: "machine \<Rightarrow> VMReg \<Rightarrow> 64 word" where
  "get_loc s (VMGpr r) = regs s r"
| "get_loc s (VMFpr q) = ucast (vregs s q)"
| "get_loc s (VMStack off) = load64 (mem s) (regs s sp + of_nat off)"
| "get_loc s VMBad = 0"

fun set_loc :: "VMReg \<Rightarrow> 64 word \<Rightarrow> machine \<Rightarrow> machine" where
  "set_loc (VMGpr r) v s = set_reg r v s"
| "set_loc (VMFpr q) v s = set_vreg q (ucast v) s"
| "set_loc (VMStack off) v s = set_mem (store64 (mem s) (regs s sp + of_nat off) v) s"
| "set_loc VMBad v s = s"

text \<open>
  Modelled from the spec: the macros of the assembler, which are not part of this
  file, each by what it is there for.  These are the operations that fall through to
  the next one: \<open>enter\<close> pushes the frame pointer and the return address and sets up the frame,
  \<open>leave\<close> undoes it, \<open>set_last_Java_frame\<close> publishes the program counter, the
  frame pointer and the stack pointer in the thread's record through the scratch
  register, \<open>reset_last_Java_frame\<close> clears them, a memory barrier and the check of
  the vector length change nothing of a single thread's state.
\<close>

fun effect :: "platform \<Rightarrow> instr \<Rightarrow> machine \<Rightarrow> machine" where
  "effect vm Enter s =
     (let a = regs s sp - 16;
          m1 = store64 (mem s) a (regs s rfp);
          m2 = store64 m1 (a + 8) (regs s lr)
      in set_reg rfp a (set_reg sp a (set_mem m2 s)))"
| "effect vm Leave s =
     (let a = regs s rfp
      in set_reg sp (a + 16) (set_reg lr (load64 (mem s) (a + 8)) (set_reg rfp (load64 (mem s) a) s)))"
| "effect vm (Mov_rr d r) s = set_reg d (regs s r) s"
| "effect vm (Mov_ri d i) s = set_reg d i s"
| "effect vm (Str r ad) s =
     (let v = regs s r; (a, s1) = ea ad s in set_mem (store64 (mem s1) a v) s1)"
| "effect vm (Ldr r ad) s =
     (let (a, s1) = ea ad s in set_reg r (load64 (mem s1) a) s1)"
| "effect vm (Strw r ad) s =
     (let v = regs s r; (a, s1) = ea ad s in set_mem (store32 (mem s1) a (ucast v)) s1)"
| "effect vm (Ldrw r ad) s =
     (let (a, s1) = ea ad s in set_reg r (ucast (load32 (mem s1) a)) s1)"
| "effect vm (Ldrb r ad) s =
     (let (a, s1) = ea ad s in set_reg r (ucast (mem s1 a)) s1)"
| "effect vm (Strq q ad) s =
     (let v = vregs s q; (a, s1) = ea ad s in set_mem (store128 (mem s1) a v) s1)"
| "effect vm (Ldrq q ad) s =
     (let (a, s1) = ea ad s in set_vreg q (load128 (mem s1) a) s1)"
| "effect vm (Add_rri d r i) s = set_reg d (regs s r + i) s"
| "effect vm (Andr_rri d r i) s = set_reg d (regs s r AND i) s"
| "effect vm (Sub_rrr d r1 r2) s = set_reg d (regs s r1 - regs s r2) s"
| "effect vm (Sub_rri d r i) s = set_reg d (regs s r - i) s"
| "effect vm (Lsr d r n) s = set_reg d (drop_bit n (regs s r)) s"
| "effect vm (Lea d ad) s = set_reg d (fst (ea ad s)) s"
| "effect vm (Stlrw r rn) s = set_mem (store32 (mem s) (regs s rn) (ucast (regs s r))) s"
| "effect vm (Cmpw r i) s = s\<lparr>flag_eq := ((ucast (regs s r) :: 32 word) = i)\<rparr>"
| "effect vm (C2bool r) s =
     (set_reg r (if regs s r AND 255 = 0 then 0 else 1) s)\<lparr>flag_eq := (regs s r AND 255 = 0)\<rparr>"
| "effect vm (Ubfx d r lsb width) s = set_reg d (take_bit width (drop_bit lsb (regs s r))) s"
| "effect vm (Sbfx d r lsb width) s =
     set_reg d (signed_take_bit (width - 1) (drop_bit lsb (regs s r))) s"
| "effect vm (SetLastJavaFrame last_java_sp last_java_fp last_java_pc scratch) s =
     (let s1 = set_reg scratch (word_of_int last_java_pc) s;
          m1 = store64 (mem s1) (regs s1 rthread + word_of_int (last_Java_pc_offset vm))
                 (regs s1 scratch);
          s2 = (if last_java_sp = sp then set_reg scratch (regs s1 sp) s1 else s1);
          spv = (if last_java_sp = sp then regs s2 scratch else regs s2 last_java_sp);
          m2 = store64 m1 (regs s2 rthread + word_of_int (last_Java_sp_offset vm)) spv;
          m3 = store64 m2 (regs s2 rthread + word_of_int (last_Java_fp_offset vm))
                 (regs s2 last_java_fp)
      in set_mem m3 s2)"
| "effect vm (ResetLastJavaFrame clear_fp) s =
     (let m1 = store64 (mem s) (regs s rthread + word_of_int (last_Java_sp_offset vm)) 0;
          m2 = (if clear_fp
                then store64 m1 (regs s rthread + word_of_int (last_Java_fp_offset vm)) 0
                else m1);
          m3 = store64 m2 (regs s rthread + word_of_int (last_Java_pc_offset vm)) 0
      in set_mem m3 s)"
| "effect vm (MoveLoc src dst) s = set_loc dst (get_loc s src) s"
| "effect vm i s = s"

fun label_pos :: "instr list \<Rightarrow> label \<Rightarrow> nat option" where
  "label_pos [] l = None"
| "label_pos (i # is) l = (if i = Bind l then Some 0 else map_option Suc (label_pos is l))"

definition advance :: "machine \<Rightarrow> machine" where
  "advance s = s\<lparr>pc := pc s + 1\<rparr>"

definition jump :: "instr list \<Rightarrow> label \<Rightarrow> machine \<Rightarrow> machine option" where
  "jump prog l s = (case label_pos prog l of None \<Rightarrow> None | Some p \<Rightarrow> Some (s\<lparr>pc := p\<rparr>))"

definition branch_if :: "bool \<Rightarrow> instr list \<Rightarrow> label \<Rightarrow> machine \<Rightarrow> machine option" where
  "branch_if c prog l s = (if c then jump prog l s else Some (advance s))"

text \<open>
  A call leaves the emitted code: the link register receives the return address, the
  callee runs, and control comes back behind the call.  The callee cannot touch the
  record of calls.
\<close>

definition call_extern :: "extern \<Rightarrow> 64 word \<Rightarrow> machine \<Rightarrow> machine" where
  "call_extern ext target s =
     (let s1 = set_reg lr (of_nat (pc s + 1)) s;
          s2 = ext target s1
      in s2\<lparr>pc := pc s + 1, calls := calls s @ [(target, regs s c_rarg0)],
             returned_to := None\<rparr>)"

text \<open>
  Modelled from the spec: the poll for a pause request reads the thread's polling word
  into the scratch register and branches to the slow path when the word is armed: at a
  return, when the frame (or, inside a compiled method, the stack pointer) lies above
  it, otherwise when its poll bit is set.
\<close>

definition poll_armed :: "bool \<Rightarrow> bool \<Rightarrow> machine \<Rightarrow> 64 word \<Rightarrow> bool" where
  "poll_armed at_return in_nmethod s w =
     (if at_return then w < regs s (if in_nmethod then sp else rfp) else bit w 0)"

fun step :: "platform \<Rightarrow> extern \<Rightarrow> instr list \<Rightarrow> machine \<Rightarrow> machine option" where
  "step vm ext prog s =
    (if returned_to s \<noteq> None \<or> length prog \<le> pc s then None
     else
       (case prog ! pc s of
          Ret r \<Rightarrow> Some (s\<lparr>returned_to := Some (regs s r)\<rparr>)
        | B l \<Rightarrow> jump prog l s
        | Cbz r l \<Rightarrow> branch_if (regs s r = 0) prog l s
        | Cbnzw r l \<Rightarrow> branch_if ((ucast (regs s r) :: 32 word) \<noteq> 0) prog l s
        | Br c l \<Rightarrow> branch_if (case c of EQ \<Rightarrow> flag_eq s | NE \<Rightarrow> \<not> flag_eq s) prog l s
        | SafepointPoll l at_return acquire in_nmethod tmp \<Rightarrow>
            (let w = load64 (mem s) (regs s rthread + word_of_int (polling_word_offset vm));
                 s1 = set_reg tmp w s
             in branch_if (poll_armed at_return in_nmethod s1 w) prog l s1)
        | Blr r \<Rightarrow> Some (call_extern ext (regs s r) s)
        | RtCall dest tmp \<Rightarrow> Some (call_extern ext dest (set_reg tmp dest s))
        | i \<Rightarrow> Some (advance (effect vm i s))))"

declare step.simps [simp del]

fun run :: "platform \<Rightarrow> extern \<Rightarrow> instr list \<Rightarrow> nat \<Rightarrow> machine \<Rightarrow> machine option" where
  "run vm ext prog 0 s = Some s"
| "run vm ext prog (Suc n) s =
     (case step vm ext prog s of None \<Rightarrow> None | Some s1 \<Rightarrow> run vm ext prog n s1)"

text \<open>
  What the stubs rely on in the code they call: it returns with the stack pointer and
  the frame pointer it was called with, and it leaves the caller's frame, from the
  stack pointer up to the saved frame pointer and return address, as it was.  Every
  other register and the rest of the memory may change.
\<close>

definition preserves_frame :: "(machine \<Rightarrow> machine) \<Rightarrow> bool" where
  "preserves_frame f =
     (\<forall>s. regs (f s) rfp = regs s rfp \<and> regs (f s) sp = regs s sp
        \<and> (\<forall>a. in_region (regs s sp) (unat (regs s rfp + 16 - regs s sp)) a
              \<longrightarrow> mem (f s) a = mem s a))"

text \<open>The operations that \<open>step\<close> runs by their \<open>effect\<close>.\<close>

fun falls_through :: "instr \<Rightarrow> bool" where
  "falls_through (Ret r) = False"
| "falls_through (B l) = False"
| "falls_through (Cbz r l) = False"
| "falls_through (Cbnzw r l) = False"
| "falls_through (Br c l) = False"
| "falls_through (SafepointPoll l a b c t) = False"
| "falls_through (Blr r) = False"
| "falls_through (RtCall d t) = False"
| "falls_through i = True"

declare run.simps(2) [simp del]

text \<open>
  What the rest of the virtual machine reads in the record of the thread: the state
  word, the frame anchor (the stack pointer, the frame pointer and the pc of the last
  Java frame) and the state of the guard pages.  The fields of the record lie apart
  from each other.
\<close>

definition thread_state :: "platform \<Rightarrow> machine \<Rightarrow> 32 word" where
  "thread_state vm s = load32 (mem s) (regs s rthread + word_of_int (thread_state_offset vm))"

definition frame_anchor :: "platform \<Rightarrow> machine \<Rightarrow> 64 word \<times> 64 word \<times> 64 word" where
  "frame_anchor vm s =
     (load64 (mem s) (regs s rthread + word_of_int (last_Java_sp_offset vm)),
      load64 (mem s) (regs s rthread + word_of_int (last_Java_fp_offset vm)),
      load64 (mem s) (regs s rthread + word_of_int (last_Java_pc_offset vm)))"

definition stack_guard_state :: "platform \<Rightarrow> machine \<Rightarrow> 8 word" where
  "stack_guard_state vm s = mem s (regs s rthread + word_of_int (stack_guard_state_offset vm))"

definition thread_fields_apart :: "platform \<Rightarrow> 64 word \<Rightarrow> bool" where
  "thread_fields_apart vm t =
     (disjoint_regions (t + word_of_int (last_Java_pc_offset vm)) 8
                       (t + word_of_int (last_Java_sp_offset vm)) 8
    \<and> disjoint_regions (t + word_of_int (last_Java_pc_offset vm)) 8
                       (t + word_of_int (last_Java_fp_offset vm)) 8
    \<and> disjoint_regions (t + word_of_int (last_Java_sp_offset vm)) 8
                       (t + word_of_int (last_Java_fp_offset vm)) 8
    \<and> disjoint_regions (t + word_of_int (thread_state_offset vm)) 4
                       (t + word_of_int (last_Java_sp_offset vm)) 8
    \<and> disjoint_regions (t + word_of_int (thread_state_offset vm)) 4
                       (t + word_of_int (last_Java_fp_offset vm)) 8
    \<and> disjoint_regions (t + word_of_int (thread_state_offset vm)) 4
                       (t + word_of_int (last_Java_pc_offset vm)) 8
    \<and> disjoint_regions (t + word_of_int (thread_state_offset vm)) 4
                       (t + word_of_int (stack_guard_state_offset vm)) 1)"

text \<open>
  The operations of the state transitions and of the frame anchor: a load of a
  constant, a store of a word and the two anchor macros.
\<close>

fun transition_op :: "instr \<Rightarrow> bool" where
  "transition_op (SetLastJavaFrame a b c d) = True"
| "transition_op (ResetLastJavaFrame b) = True"
| "transition_op (Stlrw r rn) = True"
| "transition_op (Strw r ad) = True"
| "transition_op (Mov_ri d i) = True"
| "transition_op i = False"

section \<open>Example inputs\<close>

text \<open>
  A platform for the examples: the Java convention passes argument \<open>i\<close> in register
  \<open>i + 1\<close>, the native convention takes the locations the caller lists; the thread
  states, the offsets and the entry addresses are sample values.
\<close>

definition example_vm :: platform where
  "example_vm =
     \<lparr> JavaCallConv = (\<lambda>sg i. if i < 7 then VMGpr (R (Suc i)) else VMBad),
       DowncallNativeCallConv = (\<lambda>ins addr sg i. if i < length ins then ins ! i else VMBad),
       thread_in_native = 4,
       thread_in_native_trans = 5,
       thread_in_Java = 8,
       stack_guard_yellow_reserved_disabled = 2,
       thread_state_offset = 64,
       suspend_flags_offset = 72,
       stack_guard_state_offset = 80,
       last_Java_sp_offset = 16,
       last_Java_fp_offset = 24,
       last_Java_pc_offset = 32,
       polling_word_offset = 48,
       check_special_condition_for_native_trans = 0x7000,
       reguard_yellow_pages = 0x7100,
       arg_reg_save_area_bytes = 0 \<rparr>"

text \<open>Two long arguments whose native locations are the Java locations swapped.\<close>

definition example_swap :: NativeInvokerGenerator where
  "example_swap =
     \<lparr> m_signature = [T_LONG, T_LONG], m_num_args = 2, m_ret_bt = T_LONG,
       m_shadow_space_bytes = 0,
       m_input_registers = [VMGpr (R 2), VMGpr (R 1)],
       m_output_registers = [VMGpr r0] \<rparr>"

text \<open>No argument and no return value.\<close>

definition example_void :: NativeInvokerGenerator where
  "example_void =
     \<lparr> m_signature = [], m_num_args = 0, m_ret_bt = T_VOID,
       m_shadow_space_bytes = 0,
       m_input_registers = [],
       m_output_registers = [] \<rparr>"

text \<open>No argument, a byte returned in \<open>r0\<close>.\<close>

definition example_byte :: NativeInvokerGenerator where
  "example_byte =
     \<lparr> m_signature = [], m_num_args = 0, m_ret_bt = T_BYTE,
       m_shadow_space_bytes = 0,
       m_input_registers = [],
       m_output_registers = [VMGpr r0] \<rparr>"

text \<open>
  A machine with cleared registers and memory, and external code that overwrites every
  caller-saved general register and vector register and nothing else.
\<close>

definition example_machine :: machine where
  "example_machine =
     \<lparr> regs = (\<lambda>r. 0), vregs = (\<lambda>q. 0), mem = (\<lambda>a. 0), flag_eq = False, pc = 0,
       calls = [], returned_to = None \<rparr>"

definition example_extern :: extern where
  "example_extern target s =
     s\<lparr> regs := (\<lambda>r. case r of R n \<Rightarrow> if n < 19 then 0xDEAD else regs s r),
        vregs := (\<lambda>q. 0xDEAD) \<rparr>"

text \<open>
  An ABI with a stack alignment of 16 bytes, a layout of the context record, and a
  machine at the entry of the adapter: the record lies at \<open>0x1000\<close>, it declares
  \<open>count\<close> bytes of stack arguments at \<open>0x2000\<close>, where every byte is \<open>0xAB\<close>,
  and the stack pointer is \<open>0x8000\<close>.
\<close>

definition example_abi :: ABIDescriptor where
  "example_abi =
     \<lparr> integer_argument_registers = [R 0, R 1],
       integer_return_registers = [R 0],
       vector_argument_registers = [V 0],
       vector_return_registers = [V 0],
       stack_alignment_bytes = 16,
       shadow_space_bytes = 0 \<rparr>"

definition example_layout :: BufferLayout where
  "example_layout =
     \<lparr> stack_args_bytes = 0, stack_args = 8, arguments_vector = 16,
       arguments_integer = 48, arguments_next_pc = 64, returns_integer = 72,
       returns_vector = 80 \<rparr>"

definition example_adapter_state :: "64 word \<Rightarrow> machine" where
  "example_adapter_state count =
     \<lparr> regs = (\<lambda>r. 0)(c_rarg0 := 0x1000, sp := 0x8000, rfp := 0x9000, lr := 0x4000),
       vregs = (\<lambda>q. 0),
       mem = store64 (store64 (\<lambda>a. if in_region 0x2000 32 a then 0xAB else 0) 0x1000 count)
               0x1008 0x2000,
       flag_eq = False, pc = 0, calls = [], returned_to = None \<rparr>"

section \<open>Properties of the memory\<close>

lemma unat_of_nat64: "j < 2 ^ 64 \<Longrightarrow> unat (of_nat j :: 64 word) = j"
  by (simp add: unat_of_nat)

lemma bit_load_le:
  "bit (load_le m a n :: 'a::len word) k
     \<longleftrightarrow> k < LENGTH('a) \<and> k < 8 * n \<and> bit (m (a + of_nat (k div 8))) (k mod 8)"
proof (induction n arbitrary: a k)
  case 0
  then show ?case by simp
next
  case (Suc n)
  show ?case
  proof (cases "k < 8")
    case True
    then show ?thesis
      by (auto simp: bit_simps Suc)
  next
    case False
    then have k8: "8 \<le> k" by simp
    then have d: "(k - 8) div 8 = k div 8 - 1" "(k - 8) mod 8 = k mod 8" "0 < k div 8"
      by (simp_all add: le_div_geq le_mod_geq)
    have "a + 1 + of_nat (k div 8 - 1) = a + of_nat (k div 8)"
      using d(3) by (cases "k div 8") simp_all
    moreover have "k - 8 < 8 * n \<longleftrightarrow> k < 8 * Suc n" "k - 8 < LENGTH('a) \<and> k < LENGTH('a) \<longleftrightarrow> k < LENGTH('a)"
      using k8 by auto
    moreover have "\<not> bit (m a) k"
      using k8 by (auto dest: bit_imp_le_length)
    ultimately show ?thesis
      using k8 d by (simp add: bit_simps Suc) blast
  qed
qed

lemma in_region_offset:
  "j < 2 ^ 64 \<Longrightarrow> in_region a n (a + of_nat j) \<longleftrightarrow> j < n"
  by (simp add: in_region_def unat_of_nat64)

lemma store_le_same:
  "j < n \<Longrightarrow> j < 2 ^ 64 \<Longrightarrow> store_le m a n v (a + of_nat j) = ucast (drop_bit (8 * j) v)"
  by (simp add: store_le_def in_region_def unat_of_nat64)

lemma store_le_other:
  "\<not> in_region a n x \<Longrightarrow> store_le m a n v x = m x"
  by (simp add: store_le_def)

lemma load_store_le_same:
  assumes "LENGTH('a::len) \<le> 8 * n" "n \<le> 2 ^ 61"
  shows "load_le (store_le m a n (v :: 'a word)) a n = v"
proof (rule bit_word_eqI)
  fix k assume k: "k < LENGTH('a)"
  with assms have kn: "k div 8 < n" "k div 8 < 2 ^ 64" by auto
  show "bit (load_le (store_le m a n v) a n :: 'a word) k = bit v k"
    using k kn assms by (auto simp: bit_load_le store_le_same bit_simps)
qed

lemma load_le_cong:
  "(\<And>j. j < k \<Longrightarrow> m1 (b + of_nat j) = m2 (b + of_nat j)) \<Longrightarrow> load_le m1 b k = (load_le m2 b k :: 'a::len word)"
  by (rule bit_word_eqI) (auto simp: bit_load_le)

lemma load_store_le_other:
  assumes "\<And>j. j < k \<Longrightarrow> \<not> in_region a n (b + of_nat j)"
  shows "load_le (store_le m a n v) b k = (load_le m b k :: 'b::len word)"
  by (rule load_le_cong) (simp add: store_le_other assms)

lemma byte_of_load_le:
  assumes "j < 8"
  shows "(ucast (drop_bit (8 * j) (load_le m a 8 :: 64 word)) :: 8 word) = m (a + of_nat j)"
proof (rule bit_word_eqI)
  fix k assume "k < LENGTH(8)"
  then have k: "k < 8" by simp
  then have "(8 * j + k) div 8 = j" "(8 * j + k) mod 8 = k" by simp_all
  with k assms show "bit (ucast (drop_bit (8 * j) (load_le m a 8 :: 64 word)) :: 8 word) k = bit (m (a + of_nat j)) k"
    by (auto simp: bit_simps bit_load_le add.commute)
qed

lemma separated_fwd:
  assumes "separated a n b k" "j < k"
  shows "\<not> in_region a n (b + of_nat j)"
proof -
  from assms have d: "unat (b - a) + j < 2 ^ 64" "n \<le> unat (b - a)" by (auto simp: separated_def)
  then have "unat ((b - a) + of_nat j) = unat (b - a) + j"
    by (simp add: unat_word_ariths unat_of_nat64)
  moreover have "b + of_nat j - a = (b - a) + of_nat j" by simp
  ultimately have "unat (b + of_nat j - a) = unat (b - a) + j" by (simp only:)
  with d show ?thesis
    by (simp add: in_region_def)
qed

lemma separated_bwd:
  assumes "separated a n b k" "i < n"
  shows "\<not> in_region b k (a + of_nat i)"
proof -
  from assms have d: "n \<le> unat (b - a)" "unat (b - a) + k \<le> 2 ^ 64" "i < unat (b - a)"
    by (auto simp: separated_def)
  have ui: "unat (of_nat i :: 64 word) = i"
  proof -
    from d have "i < 2 ^ 64" by linarith
    then show ?thesis by (rule unat_of_nat64)
  qed
  have "unat (of_nat i - (b - a)) = i + 2 ^ 64 - unat (b - a)"
    using unat_sub_if_size [of "of_nat i :: 64 word" "b - a"] ui d(3)
    by (simp add: word_size)
  moreover have "a + of_nat i - b = of_nat i - (b - a)" by simp
  ultimately have "unat (a + of_nat i - b) = i + 2 ^ 64 - unat (b - a)" by (simp only:)
  with d show ?thesis
    by (simp add: in_region_def)
qed

section \<open>Properties of the shuffle planner\<close>

lemma exec_moves_Cons: "exec_moves (m # prog) f = exec_moves prog (f (snd m := f (fst m)))"
  by (simp add: exec_moves_def exec_move_def)

lemma exec_moves_Nil: "exec_moves [] f = f"
  by (simp add: exec_moves_def)

lemma exec_moves_unwritten: "x \<notin> snd ` set prog \<Longrightarrow> exec_moves prog f x = f x"
  by (induction prog arbitrary: f) (auto simp: exec_moves_Cons exec_moves_Nil)

lemma image_remove1_subset: "g ` set (remove1 x xs) \<subseteq> g ` set xs"
  using set_remove1_subset [of x xs] by auto

lemma distinct_map_remove1: "distinct (map g xs) \<Longrightarrow> distinct (map g (remove1 x xs))"
  using image_remove1_subset [of g x] by (induction xs) auto

lemma distinct_snd_remove1:
  "distinct (map g xs) \<Longrightarrow> x \<in> set xs \<Longrightarrow> g x \<notin> g ` set (remove1 x xs)"
proof (induction xs)
  case Nil
  then show ?case by simp
next
  case (Cons a xs)
  show ?case
  proof (cases "x = a")
    case True
    with Cons.prems show ?thesis by simp
  next
    case False
    with Cons.prems have "x \<in> set xs" by auto
    moreover from this Cons.prems have "g x \<noteq> g a" by (metis distinct.simps(2) image_eqI list.simps(9) set_map)
    ultimately have "x \<in> set xs" "g x \<noteq> g a" by auto
    with Cons show ?thesis using False by auto
  qed
qed

lemma compute_move_order_writes:
  "compute_move_order tmp ms = Inr prog \<Longrightarrow> snd ` set prog \<subseteq> insert tmp (snd ` set ms)"
proof (induction tmp ms arbitrary: prog rule: compute_move_order.induct)
  case (1 tmp ms)
  show ?case
  proof (cases "ms = []")
    case True
    with "1.prems" show ?thesis by (simp add: compute_move_order.simps)
  next
    case ne: False
    show ?thesis
    proof (cases "find (\<lambda>m. snd m \<notin> set (map fst ms)) ms")
      case (Some m)
      with ne "1.prems" obtain p where p: "compute_move_order tmp (remove1 m ms) = Inr p" "prog = m # p"
        by (subst (asm) compute_move_order.simps) (auto simp: map_sum_def split: sum.splits)
      from Some have "m \<in> set ms" by (auto simp: find_Some_iff)
      moreover from "1.IH"(2) [OF ne Some p(1)] have "snd ` set p \<subseteq> insert tmp (snd ` set (remove1 m ms))" .
      moreover have "set (remove1 m ms) \<subseteq> set ms" by (rule set_remove1_subset)
      ultimately show ?thesis using p(2) by auto
    next
      case None
      with ne "1.prems" have free: "tmp \<notin> set (map fst ms)"
        by (subst (asm) compute_move_order.simps) (auto split: if_splits)
      with ne None "1.prems" obtain p where
        p: "compute_move_order tmp (map (subst_src (fst (hd ms)) tmp) ms) = Inr p"
           "prog = (fst (hd ms), tmp) # p"
        by (subst (asm) compute_move_order.simps) (auto simp: map_sum_def split: sum.splits)
      from "1.IH"(1) [OF ne None free p(1)]
      have "snd ` set p \<subseteq> insert tmp (snd ` set (map (subst_src (fst (hd ms)) tmp) ms))" .
      moreover have "map snd (map (subst_src (fst (hd ms)) tmp) ms) = map snd ms"
        by (simp add: subst_src_def comp_def)
      then have "snd ` set (map (subst_src (fst (hd ms)) tmp) ms) = snd ` set ms"
        by (metis set_map)
      ultimately show ?thesis using p(2) by auto
    qed
  qed
qed

lemma compute_move_order_correct:
  assumes "compute_move_order tmp ms = Inr prog"
    and "distinct (map snd ms)" and "tmp \<notin> snd ` set ms" and "\<forall>m\<in>set ms. fst m \<noteq> snd m"
    and "m \<in> set ms"
  shows "exec_moves prog f (snd m) = f (fst m)"
  using assms
proof (induction tmp ms arbitrary: prog f m rule: compute_move_order.induct)
  case (1 tmp ms)
  from "1.prems"(5) have ne: "ms \<noteq> []" by auto
  show ?case
  proof (cases "find (\<lambda>m. snd m \<notin> set (map fst ms)) ms")
    case (Some m0)
    with ne "1.prems"(1) obtain p where p: "compute_move_order tmp (remove1 m0 ms) = Inr p" "prog = m0 # p"
      by (subst (asm) compute_move_order.simps) (auto simp: map_sum_def split: sum.splits)
    from Some have m0: "m0 \<in> set ms" "snd m0 \<notin> fst ` set ms" by (auto simp: find_Some_iff)
    let ?f = "f (snd m0 := f (fst m0))"
    have d': "distinct (map snd (remove1 m0 ms))"
      using "1.prems"(2) by (rule distinct_map_remove1)
    have sub: "set (remove1 m0 ms) \<subseteq> set ms" by (rule set_remove1_subset)
    have notin: "snd m0 \<notin> snd ` set (remove1 m0 ms)"
      using "1.prems"(2) m0(1) by (rule distinct_snd_remove1)
    show ?thesis
    proof (cases "m = m0")
      case True
      have "snd m0 \<notin> snd ` set p"
        using compute_move_order_writes [OF p(1)] notin "1.prems"(3) m0(1) by auto
      then show ?thesis
        using True p(2) by (simp add: exec_moves_Cons exec_moves_unwritten)
    next
      case False
      with "1.prems"(5) have mem: "m \<in> set (remove1 m0 ms)" by simp
      have t'': "tmp \<notin> snd ` set (remove1 m0 ms)" using "1.prems"(3) sub by auto
      have n'': "\<forall>m\<in>set (remove1 m0 ms). fst m \<noteq> snd m" using "1.prems"(4) sub by auto
      have "exec_moves p ?f (snd m) = ?f (fst m)"
        by (rule "1.IH"(2) [OF ne Some p(1) d' t'' n'' mem])
      moreover have "fst m \<noteq> snd m0" using m0(2) "1.prems"(5) by (metis image_eqI)
      ultimately show ?thesis using p(2) by (simp add: exec_moves_Cons)
    qed
  next
    case None
    with ne "1.prems"(1) have free: "tmp \<notin> set (map fst ms)"
      by (subst (asm) compute_move_order.simps) (auto split: if_splits)
    let ?a = "fst (hd ms)"
    let ?ms = "map (subst_src ?a tmp) ms"
    from ne None free "1.prems"(1) obtain p where
      p: "compute_move_order tmp ?ms = Inr p" "prog = (?a, tmp) # p"
      by (subst (asm) compute_move_order.simps) (auto simp: map_sum_def split: sum.splits)
    let ?f = "f (tmp := f ?a)"
    have snd_eq: "map snd ?ms = map snd ms"
      by (simp add: subst_src_def comp_def)
    have d': "distinct (map snd ?ms)" using "1.prems"(2) by (simp only: snd_eq)
    have t': "tmp \<notin> snd ` set ?ms" using "1.prems"(3) snd_eq by (metis set_map)
    have n': "\<forall>m\<in>set ?ms. fst m \<noteq> snd m"
    proof
      fix m' assume "m' \<in> set ?ms"
      then obtain m1 where m1: "m1 \<in> set ms" "m' = subst_src ?a tmp m1" by auto
      from m1(1) "1.prems"(3) have "snd m1 \<noteq> tmp" by (metis image_eqI)
      with m1 "1.prems"(4) show "fst m' \<noteq> snd m'"
        by (auto simp: subst_src_def)
    qed
    have mem: "subst_src ?a tmp m \<in> set ?ms" using "1.prems"(5) by simp
    have "exec_moves p ?f (snd (subst_src ?a tmp m)) = ?f (fst (subst_src ?a tmp m))"
      by (rule "1.IH"(1) [OF ne None free p(1) d' t' n' mem])
    moreover have "fst m \<noteq> tmp" using free "1.prems"(5) by auto
    ultimately show ?thesis
      using p(2) by (auto simp: exec_moves_Cons subst_src_def split: if_splits)
  qed
qed


lemma compute_move_order_total:
  assumes "distinct (map snd ms)" and "tmp \<notin> snd ` set ms" and "\<forall>m\<in>set ms. fst m \<noteq> snd m"
  shows "\<exists>prog. compute_move_order tmp ms = Inr prog"
  using assms
proof (induction tmp ms rule: compute_move_order.induct)
  case (1 tmp ms)
  show ?case
  proof (cases "ms = []")
    case True
    then show ?thesis by (simp add: compute_move_order.simps)
  next
    case ne: False
    show ?thesis
    proof (cases "find (\<lambda>m. snd m \<notin> set (map fst ms)) ms")
      case (Some m0)
      have sub: "set (remove1 m0 ms) \<subseteq> set ms" by (rule set_remove1_subset)
      have "distinct (map snd (remove1 m0 ms))" using "1.prems"(1) by (rule distinct_map_remove1)
      moreover have "tmp \<notin> snd ` set (remove1 m0 ms)" using "1.prems"(2) sub by auto
      moreover have "\<forall>m\<in>set (remove1 m0 ms). fst m \<noteq> snd m" using "1.prems"(3) sub by auto
      ultimately obtain p where "compute_move_order tmp (remove1 m0 ms) = Inr p"
        using "1.IH"(2) [OF ne Some] by blast
      with ne Some show ?thesis
        by (subst compute_move_order.simps) simp
    next
      case None
      then have "snd ` set ms \<subseteq> fst ` set ms"
        by (auto simp: find_None_iff)
      moreover have "card (snd ` set ms) = length ms"
        using "1.prems"(1) by (metis distinct_card length_map set_map)
      moreover have "card (fst ` set ms) \<le> length ms"
        by (metis card_length length_map set_map)
      ultimately have "snd ` set ms = fst ` set ms"
        by (intro card_seteq) auto
      with "1.prems"(2) have free: "tmp \<notin> set (map fst ms)" by simp
      let ?a = "fst (hd ms)"
      let ?ms = "map (subst_src ?a tmp) ms"
      have snd_eq: "map snd ?ms = map snd ms"
        by (simp add: subst_src_def comp_def)
      have d': "distinct (map snd ?ms)" using "1.prems"(1) by (simp only: snd_eq)
      have t': "tmp \<notin> snd ` set ?ms" using "1.prems"(2) snd_eq by (metis set_map)
      have n': "\<forall>m\<in>set ?ms. fst m \<noteq> snd m"
      proof
        fix m' assume "m' \<in> set ?ms"
        then obtain m1 where m1: "m1 \<in> set ms" "m' = subst_src ?a tmp m1" by auto
        from m1(1) "1.prems"(2) have "snd m1 \<noteq> tmp" by (metis image_eqI)
        with m1 "1.prems"(3) show "fst m' \<noteq> snd m'"
          by (auto simp: subst_src_def)
      qed
      obtain p where "compute_move_order tmp ?ms = Inr p"
        using "1.IH"(1) [OF ne None free d' t' n'] by blast
      with ne None free show ?thesis
        by (subst compute_move_order.simps) simp
    qed
  qed
qed

lemma emitted_moves_Nil: "emitted_moves [] = []"
  by (simp add: emitted_moves_def)

lemma emitted_moves_Cons:
  "emitted_moves (i # c) = (case i of MoveLoc src dst \<Rightarrow> [(src, dst)] | _ \<Rightarrow> []) @ emitted_moves c"
  by (simp add: emitted_moves_def)

lemma emitted_moves_append: "emitted_moves (a @ b) = emitted_moves a @ emitted_moves b"
  by (simp add: emitted_moves_def)

lemma emitted_moves_spill_code: "emitted_moves (spill_code sf vs off) = []"
  by (induction vs arbitrary: off) (auto simp: emitted_moves_def split: VMReg.splits)

lemma emitted_moves_unpack: "unpack_native_results bt = Inr c \<Longrightarrow> emitted_moves c = []"
  by (auto simp: unpack_native_results_def emitted_moves_def split: BasicType.splits)

lemma emitted_moves_shuffle: "emitted_moves (ArgumentShuffle_generate sh t a b) = moves sh"
  by (induction "moves sh" arbitrary: sh) (auto simp: emitted_moves_def ArgumentShuffle_generate_def comp_def)

lemma generate_shuffle:
  assumes "NativeInvokerGenerator_generate vm start g = Inr res"
  shows "\<exists>sh. ArgumentShuffle_new (m_signature g) (m_num_args g) (m_signature g) (m_num_args g)
            (JavaCallConv vm) (DowncallNativeCallConv vm (m_input_registers g) (as_VMReg r9))
            (as_VMReg r19) = Inr sh
          \<and> emitted_moves (code res) = moves sh"
  using assms
  by (auto simp: NativeInvokerGenerator_generate_def Let_def emitted_moves_append
      emitted_moves_spill_code emitted_moves_unpack emitted_moves_shuffle generate_spill_def generate_fill_def
      emitted_moves_Cons emitted_moves_Nil
      split: sum.splits if_splits)

lemma ArgumentShuffle_new_correct:
  assumes new: "ArgumentShuffle_new sg n sg n in_conv out_conv tmp = Inr sh"
    and i: "i < n"
    and v: "is_valid (in_conv sg i)" "is_valid (out_conv sg i)"
  shows "exec_moves (moves sh) f (out_conv sg i) = f (in_conv sg i)"
proof -
  let ?srcs = "map (in_conv sg) [0 ..< n]"
  let ?dsts = "map (out_conv sg) [0 ..< n]"
  let ?args = "filter (\<lambda>m. is_valid (fst m) \<and> is_valid (snd m)) (zip ?srcs ?dsts)"
  let ?ms = "filter (\<lambda>m. fst m \<noteq> snd m) ?args"
  from new have tmp: "tmp \<notin> set ?srcs \<union> set ?dsts"
    and dist: "distinct (map snd ?args)"
    and prog: "compute_move_order tmp ?ms = Inr (moves sh)"
    by (auto simp: ArgumentShuffle_new_def Let_def split: if_splits sum.splits)
  let ?m = "(in_conv sg i, out_conv sg i)"
  have "?m = zip ?srcs ?dsts ! i" using i by simp
  then have "?m \<in> set (zip ?srcs ?dsts)" using i by (metis length_map length_upt length_zip min.idem nth_mem minus_nat.diff_0)
  with v have marg: "?m \<in> set ?args" by simp
  have dms: "distinct (map snd ?ms)" using dist by (rule distinct_map_filter)
  have tms: "tmp \<notin> snd ` set ?ms"
    using tmp by (auto dest!: set_zip_rightD)
  show ?thesis
  proof (cases "in_conv sg i = out_conv sg i")
    case False
    with marg have "?m \<in> set ?ms" by simp
    from compute_move_order_correct [OF prog dms tms _ this, of f] show ?thesis by simp
  next
    case True
    have "out_conv sg i \<notin> snd ` set ?ms"
    proof
      assume "out_conv sg i \<in> snd ` set ?ms"
      then obtain m' where m': "m' \<in> set ?ms" "snd m' = out_conv sg i" by auto
      then have "m' \<in> set ?args" "fst m' \<noteq> snd m'" by auto
      moreover from dist have "inj_on snd (set ?args)" by (simp only: distinct_map)
      ultimately have "m' = ?m" using marg m'(2) inj_onD [of snd "set ?args" m' ?m] by simp
      with True \<open>fst m' \<noteq> snd m'\<close> show False by simp
    qed
    moreover have "out_conv sg i \<noteq> tmp" using tmp i by auto
    ultimately have "out_conv sg i \<notin> snd ` set (moves sh)"
      using compute_move_order_writes [OF prog] by auto
    then show ?thesis using True by (simp add: exec_moves_unwritten)
  qed
qed

lemma example_swap_generates:
  "\<not> isl (NativeInvokerGenerator_generate example_vm 0 example_swap)"
  by code_simp

text \<open>
  C1: for every signature and every pair of calling conventions for which the full
  downcall generator emits a stub, running the emitted argument-shuffle move program on
  a register/stack file leaves the destination location of every argument holding the
  value its source location held before the first move, as a simultaneous assignment
  does.
\<close>

theorem C1_shuffle_simultaneous:
  assumes "NativeInvokerGenerator_generate vm start g = Inr res"
    and "i < m_num_args g"
    and "is_valid (JavaCallConv vm (m_signature g) i)"
    and "is_valid (DowncallNativeCallConv vm (m_input_registers g) (as_VMReg r9) (m_signature g) i)"
  shows "exec_moves (emitted_moves (code res)) f
           (DowncallNativeCallConv vm (m_input_registers g) (as_VMReg r9) (m_signature g) i)
         = f (JavaCallConv vm (m_signature g) i)"
proof -
  from generate_shuffle [OF assms(1)] obtain sh where
    sh: "ArgumentShuffle_new (m_signature g) (m_num_args g) (m_signature g) (m_num_args g)
            (JavaCallConv vm) (DowncallNativeCallConv vm (m_input_registers g) (as_VMReg r9))
            (as_VMReg r19) = Inr sh"
    and em: "emitted_moves (code res) = moves sh"
    by blast
  from ArgumentShuffle_new_correct [OF sh assms(2,3,4), of f] em show ?thesis
    by simp
qed

theorem C1_shuffle_simultaneous_witness:
  "exec_moves (emitted_moves (code (projr (NativeInvokerGenerator_generate example_vm 0 example_swap))))
     (\<lambda>v. if v = VMGpr (R 1) then 11 else if v = VMGpr (R 2) then 22 else 0) (VMGpr (R 2)) = 11
   \<and> exec_moves (emitted_moves (code (projr (NativeInvokerGenerator_generate example_vm 0 example_swap))))
     (\<lambda>v. if v = VMGpr (R 1) then 11 else if v = VMGpr (R 2) then 22 else 0) (VMGpr (R 1)) = 22"
proof -
  let ?res = "projr (NativeInvokerGenerator_generate example_vm 0 example_swap)"
  let ?f = "\<lambda>v. if v = VMGpr (R 1) then (11 :: 64 word) else if v = VMGpr (R 2) then 22 else 0"
  have h: "NativeInvokerGenerator_generate example_vm 0 example_swap = Inr ?res"
    using example_swap_generates by simp
  from C1_shuffle_simultaneous [OF h, of 0 ?f] C1_shuffle_simultaneous [OF h, of 1 ?f]
  show ?thesis
    by (simp add: example_vm_def example_swap_def is_valid_def)
qed

section \<open>Properties of the full downcall generator\<close>

lemma and_not_mask_int: "(k::int) AND NOT (mask n) = push_bit n (drop_bit n k)"
  by (rule bit_eqI) (auto simp: bit_simps)

lemma and_not_3: "(k::int) AND NOT 3 = (k div 4) * 4"
proof -
  have "(3::int) = mask 2" by (simp add: mask_eq_exp_minus_1)
  then show ?thesis
    by (simp only: and_not_mask_int) (simp add: push_bit_eq_mult drop_bit_eq_div)
qed

lemma align_up_4: "align_up x 4 = ((x + 3) div 4) * 4"
proof -
  have "align_up x 4 = (x + 3) AND NOT 3" by (simp add: align_up_def)
  also have "\<dots> = ((x + 3) div 4) * 4" by (rule and_not_3)
  finally show ?thesis .
qed

lemma align_up_4_props: "align_up x 4 mod 4 = 0" "x \<le> align_up x 4" "align_up x 4 < x + 4"
  by (simp_all add: align_up_4)

lemma is_even_iff: "is_even x = even x"
  by (simp add: is_even_def and_one_eq even_iff_mod_2_eq_zero)

lemma c_div_nonneg: "0 \<le> a \<Longrightarrow> 0 < b \<Longrightarrow> c_div a b = a div b"
  by (cases "a = 0") (simp_all add: c_div_def)

lemma frame_assert: "0 \<le> x \<Longrightarrow> is_even (c_div (align_up x 4) 2)"
proof -
  assume "0 \<le> x"
  then have "0 \<le> align_up x 4" using align_up_4_props(2)[of x] by simp
  then show ?thesis
    by (simp add: c_div_nonneg is_even_iff align_up_4)
qed

lemma sum_list_nonneg_pd: "0 \<le> sum_list (map pd_reg_size vs)"
  by (induction vs) (auto simp: pd_reg_size_def split: VMReg.splits)

lemma sum_list_nonneg_slots: "0 \<le> sum_list (map out_slots_of vs)"
  by (induction vs) (auto simp: out_slots_of_def split: VMReg.splits)

lemma sp_imm_aligned:
  assumes "fs mod 4 = 0"
  shows "(ucast (push_bit LogBytesPerInt ((word_of_int fs :: 32 word) - 4)) :: 64 word) AND 15 = 0"
proof -
  have "(15 :: 64 word) = mask 4" by (simp add: mask_eq_exp_minus_1)
  moreover have "take_bit 4 (ucast (push_bit 2 ((word_of_int fs :: 32 word) - 4)) :: 64 word) = 0"
  proof -
    from assms obtain k where "fs = 4 * k" by (auto simp: mod_eq_0_iff_dvd)
    then have "(word_of_int fs :: 32 word) - 4 = push_bit 2 (word_of_int (k - 1))"
      by (simp add: push_bit_eq_mult algebra_simps)
    then show ?thesis
      by (auto intro!: bit_eqI simp: bit_simps)
  qed
  ultimately show ?thesis
    by (simp add: LogBytesPerInt_def take_bit_eq_mask)
qed

lemma out_arg_stack_slots_nonneg:
  "ArgumentShuffle_new s1 n1 s2 n2 c1 c2 t = Inr sh \<Longrightarrow> 0 \<le> out_arg_stack_slots sh"
  using align_up_4_props(2) [of "sum_list (map out_slots_of (map (c2 s2) [0 ..< n2]))"]
    sum_list_nonneg_slots [of "map (c2 s2) [0 ..< n2]"]
  by (auto simp: ArgumentShuffle_new_def Let_def split: if_splits sum.splits)

lemma out_arg_stack_slots_no_args:
  "ArgumentShuffle_new s1 0 s2 0 c1 c2 t = Inr sh \<Longrightarrow> out_arg_stack_slots sh = 0"
  by (auto simp: ArgumentShuffle_new_def Let_def align_up_def split: if_splits sum.splits)

text \<open>What a successful run of the generator has checked and emitted.\<close>

lemma generate_Inr:
  assumes "NativeInvokerGenerator_generate vm start g = Inr res"
  obtains sh unpack where
    "ArgumentShuffle_new (m_signature g) (m_num_args g) (m_signature g) (m_num_args g)
       (JavaCallConv vm) (DowncallNativeCallConv vm (m_input_registers g) (as_VMReg r9))
       (as_VMReg r19) = Inr sh"
    and "unpack_native_results (m_ret_bt g) = Inr unpack"
    and "g_framesize res = align_up (4 + drop_bit LogBytesPerInt (spill_size_bytes (RegSpiller_new (m_output_registers g)))
           + out_arg_stack_slots sh) 4"
    and "frame_complete res = 2"
    and "oop_maps res = [(2, OopMap_new (g_framesize res) 0)]"
    and "code res =
           [ Enter,
             Sub_rri sp rfp (ucast (push_bit LogBytesPerInt ((word_of_int (g_framesize res) :: 32 word) - 4))),
             SetLastJavaFrame sp rfp (start + 2) r9,
             Mov_ri r9 (thread_in_native vm),
             Lea r10 (BaseOff rthread (thread_state_offset vm)),
             Stlrw r9 r10 ]
           @ map (\<lambda>m. MoveLoc (fst m) (snd m)) (moves sh)
           @ [ Blr r9 ]
           @ unpack
           @ [ Mov_ri r9 (thread_in_native_trans vm),
               Strw r9 (BaseOff rthread (thread_state_offset vm)),
               Membar 15,
               VerifySveVectorLength r9,
               SafepointPoll ''L_safepoint_poll_slow_path'' True True False r9,
               Ldrw r9 (BaseOff rthread (suspend_flags_offset vm)),
               Cbnzw r9 ''L_safepoint_poll_slow_path'',
               Bind ''L_after_safepoint_poll'',
               Mov_ri r9 (thread_in_Java vm),
               Lea r10 (BaseOff rthread (thread_state_offset vm)),
               Stlrw r9 r10,
               Ldrb r9 (BaseOff rthread (stack_guard_state_offset vm)),
               Cmpw r9 (stack_guard_yellow_reserved_disabled vm),
               Br EQ ''L_reguard'',
               Bind ''L_after_reguard'',
               ResetLastJavaFrame True,
               Leave,
               Ret lr,
               Bind ''L_safepoint_poll_slow_path'' ]
           @ spill_code True (m_output_registers g) 0
           @ [ Mov_rr c_rarg0 rthread,
               Lea r9 (RuntimeAddress (check_special_condition_for_native_trans vm)),
               Blr r9 ]
           @ spill_code False (m_output_registers g) 0
           @ [ B ''L_after_safepoint_poll'',
               Bind ''L_reguard'' ]
           @ spill_code True (m_output_registers g) 0
           @ [ RtCall (reguard_yellow_pages vm) r9 ]
           @ spill_code False (m_output_registers g) 0
           @ [ B ''L_after_reguard'' ]"
  using assms
  by (auto simp: NativeInvokerGenerator_generate_def Let_def add_gc_map_def
      generate_spill_def generate_fill_def RegSpiller_new_def ArgumentShuffle_generate_def
      membar_mask_def
      split: sum.splits if_splits)


lemma compute_move_order_error:
  "compute_move_order tmp ms = Inl e \<Longrightarrow> e = FatalError ''scratch location busy''"
proof (induction tmp ms rule: compute_move_order.induct)
  case (1 tmp ms)
  then show ?case
    by (subst (asm) (3) compute_move_order.simps)
      (auto split: if_splits option.splits sum.splits simp: map_sum_def)
qed

lemma generate_frame_complete:
  "NativeInvokerGenerator_generate vm start g = Inr res \<Longrightarrow> frame_complete res = 2"
  by (erule generate_Inr)

lemma generate_oop_maps:
  "NativeInvokerGenerator_generate vm start g = Inr res \<Longrightarrow>
   oop_maps res = [(2, OopMap_new (g_framesize res) 0)]"
  by (erule generate_Inr)

lemma generate_framesize:
  "NativeInvokerGenerator_generate vm start g = Inr res \<Longrightarrow>
   \<exists>sh. ArgumentShuffle_new (m_signature g) (m_num_args g) (m_signature g) (m_num_args g)
       (JavaCallConv vm) (DowncallNativeCallConv vm (m_input_registers g) (as_VMReg r9))
       (as_VMReg r19) = Inr sh
     \<and> g_framesize res = align_up (4 + drop_bit LogBytesPerInt (spill_size_bytes (RegSpiller_new (m_output_registers g)))
           + out_arg_stack_slots sh) 4"
  by (erule generate_Inr) blast

lemma generate_code_prefix:
  assumes "NativeInvokerGenerator_generate vm start g = Inr res"
  shows "code res ! 0 = Enter"
    and "code res ! 1 = Sub_rri sp rfp (ucast (push_bit LogBytesPerInt ((word_of_int (g_framesize res) :: 32 word) - 4)))"
    and "code res ! 2 = SetLastJavaFrame sp rfp (start + 2) r9"
    and "code res ! 3 = Mov_ri r9 (thread_in_native vm)"
    and "code res ! 4 = Lea r10 (BaseOff rthread (thread_state_offset vm))"
    and "code res ! 5 = Stlrw r9 r10"
  by (rule generate_Inr [OF assms], simp)+

lemma frame_words_nonneg:
  "ArgumentShuffle_new s1 n1 s2 n2 c1 c2 t = Inr sh \<Longrightarrow>
   0 \<le> 4 + drop_bit LogBytesPerInt (spill_size_bytes (RegSpiller_new outs)) + out_arg_stack_slots sh"
  using sum_list_nonneg_pd [of outs]
  by (simp add: out_arg_stack_slots_nonneg RegSpiller_new_def drop_bit_eq_div pos_imp_zdiv_nonneg_iff)

lemma frame_assertion_holds:
  "NativeInvokerGenerator_generate vm start g \<noteq> Inl (AssertionFailed ''sp not 16-byte aligned'')"
proof
  assume a: "NativeInvokerGenerator_generate vm start g = Inl (AssertionFailed ''sp not 16-byte aligned'')"
  show False
  proof (cases "ArgumentShuffle_new (m_signature g) (m_num_args g) (m_signature g) (m_num_args g)
       (JavaCallConv vm) (DowncallNativeCallConv vm (m_input_registers g) (as_VMReg r9))
       (as_VMReg r19)")
    case (Inl e)
    then have "e = FatalError ''argument counts differ''
        \<or> e = FatalError ''scratch location used by a calling convention''
        \<or> e = FatalError ''two values for one destination''
        \<or> e = FatalError ''scratch location busy''"
      by (auto simp: ArgumentShuffle_new_def Let_def split: if_splits sum.splits
          dest: compute_move_order_error)
    with a Inl show False
      by (auto simp: NativeInvokerGenerator_generate_def Let_def split: if_splits)
  next
    case (Inr sh)
    from frame_assert [OF frame_words_nonneg [OF Inr, of "m_output_registers g"]] a Inr
    show False
      by (auto simp: NativeInvokerGenerator_generate_def Let_def unpack_native_results_def
          split: if_splits sum.splits BasicType.splits)
  qed
qed

text \<open>
  C4: the full downcall generator computes the frame size as the base frame of four
  slots plus the slots of the return-value spiller's region plus the extra out-argument
  stack slots of the shuffle planner, rounded up to four slots; the assertion on the
  alignment never fails, and the stack pointer adjustment of the prolog is a multiple
  of 16 bytes; without arguments and without a return location the frame size is
  exactly the base frame.
\<close>

theorem C4_frame_size:
  "(case NativeInvokerGenerator_generate vm start g of
      Inl e \<Rightarrow> e \<noteq> AssertionFailed ''sp not 16-byte aligned''
    | Inr res \<Rightarrow>
        (\<exists>sh imm.
           ArgumentShuffle_new (m_signature g) (m_num_args g) (m_signature g) (m_num_args g)
             (JavaCallConv vm) (DowncallNativeCallConv vm (m_input_registers g) (as_VMReg r9))
             (as_VMReg r19) = Inr sh
         \<and> g_framesize res
             = align_up (4 + spill_size_bytes (RegSpiller_new (m_output_registers g)) div 4
                 + out_arg_stack_slots sh) 4
         \<and> g_framesize res mod 4 = 0
         \<and> 4 + spill_size_bytes (RegSpiller_new (m_output_registers g)) div 4
              + out_arg_stack_slots sh \<le> g_framesize res
         \<and> g_framesize res < 4 + spill_size_bytes (RegSpiller_new (m_output_registers g)) div 4
              + out_arg_stack_slots sh + 4
         \<and> is_even (c_div (g_framesize res) 2)
         \<and> code res ! 1 = Sub_rri sp rfp imm
         \<and> imm = ucast (push_bit 2 ((word_of_int (g_framesize res) :: 32 word) - 4))
         \<and> imm AND 15 = 0
         \<and> (m_num_args g = 0 \<and> m_output_registers g = [] \<longrightarrow> g_framesize res = 4)))"
proof (cases "NativeInvokerGenerator_generate vm start g")
  case (Inl e)
  with frame_assertion_holds [of vm start g] show ?thesis by auto
next
  case (Inr res)
  from generate_framesize [OF Inr] obtain sh where
    sh: "ArgumentShuffle_new (m_signature g) (m_num_args g) (m_signature g) (m_num_args g)
       (JavaCallConv vm) (DowncallNativeCallConv vm (m_input_registers g) (as_VMReg r9))
       (as_VMReg r19) = Inr sh"
    and fs: "g_framesize res = align_up (4 + drop_bit LogBytesPerInt (spill_size_bytes (RegSpiller_new (m_output_registers g)))
           + out_arg_stack_slots sh) 4"
    by blast
  note cd = generate_code_prefix(2) [OF Inr]
  let ?w = "4 + spill_size_bytes (RegSpiller_new (m_output_registers g)) div 4 + out_arg_stack_slots sh"
  have fs': "g_framesize res = align_up ?w 4"
    using fs by (simp add: LogBytesPerInt_def drop_bit_eq_div)
  have nonneg: "0 \<le> ?w"
    using frame_words_nonneg [OF sh, of "m_output_registers g"]
    by (simp add: LogBytesPerInt_def drop_bit_eq_div)
  have m4: "g_framesize res mod 4 = 0" by (simp add: fs' align_up_4_props)
  have zero: "m_num_args g = 0 \<and> m_output_registers g = [] \<longrightarrow> g_framesize res = 4"
  proof
    assume z: "m_num_args g = 0 \<and> m_output_registers g = []"
    with sh have "out_arg_stack_slots sh = 0" by (simp add: out_arg_stack_slots_no_args)
    with z show "g_framesize res = 4"
      by (simp add: fs' RegSpiller_new_def align_up_4)
  qed
  show ?thesis
    using Inr sh fs' m4 zero cd frame_assert [OF nonneg] sp_imm_aligned [OF m4]
      align_up_4_props(2,3) [of ?w]
    by (simp add: LogBytesPerInt_def)
qed

lemma example_void_generates:
  "\<not> isl (NativeInvokerGenerator_generate example_vm 0 example_void)"
  by code_simp

theorem C4_frame_size_witness:
  "g_framesize (projr (NativeInvokerGenerator_generate example_vm 0 example_void)) = 4
   \<and> code (projr (NativeInvokerGenerator_generate example_vm 0 example_void)) ! 1 = Sub_rri sp rfp 0"
proof -
  let ?res = "projr (NativeInvokerGenerator_generate example_vm 0 example_void)"
  have h: "NativeInvokerGenerator_generate example_vm 0 example_void = Inr ?res"
    using example_void_generates by simp
  from C4_frame_size [where vm = example_vm and start = 0 and g = example_void] show ?thesis
    by (subst (asm) h) (auto simp: example_void_def)
qed

text \<open>
  C6: the constructor of the full downcall generator rejects, by its assertion, exactly
  the output-register lists with more than one entry that are not of the form of two
  entries with an invalid second one; lists of length zero or one are always accepted.
\<close>

theorem C6_multi_reg_returns_rejected:
  "isl (NativeInvokerGenerator_new sg n bt sh ins outs)
     = (1 < length outs \<and> \<not> (length outs = 2 \<and> \<not> is_valid (outs ! 1)))
   \<and> (NativeInvokerGenerator_new sg n bt sh ins outs = Inl (AssertionFailed ''no multi-reg returns''))
     = (1 < length outs \<and> \<not> (length outs = 2 \<and> \<not> is_valid (outs ! 1)))
   \<and> (make_native_invoker vm start sg n bt sh ins outs = Inl (AssertionFailed ''no multi-reg returns''))
     = (1 < length outs \<and> \<not> (length outs = 2 \<and> \<not> is_valid (outs ! 1)))"
proof -
  have gen: "NativeInvokerGenerator_generate vm start g \<noteq> Inl (AssertionFailed ''no multi-reg returns'')" for g
  proof
    assume a: "NativeInvokerGenerator_generate vm start g = Inl (AssertionFailed ''no multi-reg returns'')"
    show False
    proof (cases "ArgumentShuffle_new (m_signature g) (m_num_args g) (m_signature g) (m_num_args g)
       (JavaCallConv vm) (DowncallNativeCallConv vm (m_input_registers g) (as_VMReg r9))
       (as_VMReg r19)")
      case (Inl e)
      then have "e = FatalError ''argument counts differ''
        \<or> e = FatalError ''scratch location used by a calling convention''
        \<or> e = FatalError ''two values for one destination''
        \<or> e = FatalError ''scratch location busy''"
        by (auto simp: ArgumentShuffle_new_def Let_def split: if_splits sum.splits
          dest: compute_move_order_error)
      with a Inl show False
        by (auto simp: NativeInvokerGenerator_generate_def Let_def split: if_splits)
    next
      case (Inr sh)
      with a show False
        by (auto simp: NativeInvokerGenerator_generate_def Let_def unpack_native_results_def
          split: if_splits sum.splits BasicType.splits)
    qed
  qed
  show ?thesis
    using gen by (auto simp: NativeInvokerGenerator_new_def make_native_invoker_def split: sum.splits)
qed

theorem C6_multi_reg_returns_rejected_witness:
  "isl (NativeInvokerGenerator_new [] 0 T_LONG 0 [] [VMGpr r0, VMGpr (R 1)])
   \<and> \<not> isl (NativeInvokerGenerator_new [] 0 T_LONG 0 [] [VMGpr r0, VMBad])
   \<and> \<not> isl (NativeInvokerGenerator_new [] 0 T_LONG 0 [] [VMGpr r0])
   \<and> \<not> isl (NativeInvokerGenerator_new [] 0 T_VOID 0 [] [])
   \<and> isl (NativeInvokerGenerator_new [] 0 T_LONG 0 [] [VMGpr r0, VMBad, VMBad])"
  using C6_multi_reg_returns_rejected [of "[]" 0 T_LONG 0 "[]" "[VMGpr r0, VMGpr (R 1)]"]
    C6_multi_reg_returns_rejected [of "[]" 0 T_LONG 0 "[]" "[VMGpr r0, VMBad]"]
    C6_multi_reg_returns_rejected [of "[]" 0 T_LONG 0 "[]" "[VMGpr r0]"]
    C6_multi_reg_returns_rejected [of "[]" 0 T_VOID 0 "[]" "[]"]
    C6_multi_reg_returns_rejected [of "[]" 0 T_LONG 0 "[]" "[VMGpr r0, VMBad, VMBad]"]
  by (simp add: is_valid_def)

text \<open>
  C10: the root-map set of a generated stub holds exactly one garbage-collector map,
  keyed at the code offset whose program counter the stub records as the last Java
  program counter, and the map has no entry.
\<close>

theorem C10_single_empty_gc_map:
  assumes "NativeInvokerGenerator_generate vm start g = Inr res"
  shows "oop_maps res = [(frame_complete res, OopMap_new (g_framesize res) 0)]
     \<and> length (oop_maps res) = 1
     \<and> om_entries (snd (hd (oop_maps res))) = []
     \<and> code res ! nat (frame_complete res)
         = SetLastJavaFrame sp rfp (start + frame_complete res) r9"
proof -
  from generate_frame_complete [OF assms] generate_oop_maps [OF assms]
    generate_code_prefix(3) [OF assms]
  show ?thesis
    by (simp add: OopMap_new_def)
qed

theorem C10_single_empty_gc_map_witness:
  "oop_maps (projr (NativeInvokerGenerator_generate example_vm 0 example_swap))
     = [(2, \<lparr>om_frame_size = 8, om_arg_count = 0, om_entries = []\<rparr>)]
   \<and> code (projr (NativeInvokerGenerator_generate example_vm 0 example_swap)) ! 2
     = SetLastJavaFrame sp rfp 2 r9"
proof -
  let ?res = "projr (NativeInvokerGenerator_generate example_vm 0 example_swap)"
  have h: "NativeInvokerGenerator_generate example_vm 0 example_swap = Inr ?res"
    using example_swap_generates by simp
  have "g_framesize ?res = 8" "frame_complete ?res = 2"
    by code_simp+
  with C10_single_empty_gc_map [OF h] show ?thesis
    by (simp add: OopMap_new_def)
qed

section \<open>Running the emitted code\<close>

lemma step_falls_through:
  "returned_to s = None \<Longrightarrow> pc s < length prog \<Longrightarrow> prog ! pc s = i \<Longrightarrow> falls_through i
   \<Longrightarrow> step vm ext prog s = Some (advance (effect vm i s))"
  by (cases i) (simp_all add: step.simps)

lemma nth_split: "xs = a @ b \<Longrightarrow> i = length a + j \<Longrightarrow> xs ! i = b ! j"
  by simp

lemma sbfx_8: "signed_take_bit 7 (x :: 64 word) = scast (ucast x :: 8 word)"
  by (rule bit_word_eqI) (auto simp: bit_simps min_def)

lemma sbfx_16: "signed_take_bit 15 (x :: 64 word) = scast (ucast x :: 16 word)"
  by (rule bit_word_eqI) (auto simp: bit_simps min_def)

lemma sbfx_32: "signed_take_bit 31 (x :: 64 word) = scast (ucast x :: 32 word)"
  by (rule bit_word_eqI) (auto simp: bit_simps min_def)

lemma ubfx_16: "take_bit 16 (x :: 64 word) = ucast (ucast x :: 16 word)"
  by (rule bit_word_eqI) (auto simp: bit_simps)


lemma emitted_moves_map_MoveLoc: "emitted_moves (map (\<lambda>m. MoveLoc (fst m) (snd m)) ms) = ms"
  by (induction ms) (simp_all add: emitted_moves_Nil emitted_moves_Cons)

lemma generate_unpack_layout:
  assumes "NativeInvokerGenerator_generate vm start g = Inr res"
  shows "\<exists>a unpack rest.
           unpack_native_results (m_ret_bt g) = Inr unpack
         \<and> code res = a @ unpack @ Mov_ri r9 (thread_in_native_trans vm) # rest
         \<and> length a = 7 + length (emitted_moves (code res))"
proof (rule generate_Inr [OF assms])
  fix sh :: ArgumentShuffle and unpack
  assume u: "unpack_native_results (m_ret_bt g) = Inr unpack"
    and c: "code res =
           [ Enter,
             Sub_rri sp rfp (ucast (push_bit LogBytesPerInt ((word_of_int (g_framesize res) :: 32 word) - 4))),
             SetLastJavaFrame sp rfp (start + 2) r9,
             Mov_ri r9 (thread_in_native vm),
             Lea r10 (BaseOff rthread (thread_state_offset vm)),
             Stlrw r9 r10 ]
           @ map (\<lambda>m. MoveLoc (fst m) (snd m)) (moves sh)
           @ [ Blr r9 ]
           @ unpack
           @ [ Mov_ri r9 (thread_in_native_trans vm),
               Strw r9 (BaseOff rthread (thread_state_offset vm)),
               Membar 15,
               VerifySveVectorLength r9,
               SafepointPoll ''L_safepoint_poll_slow_path'' True True False r9,
               Ldrw r9 (BaseOff rthread (suspend_flags_offset vm)),
               Cbnzw r9 ''L_safepoint_poll_slow_path'',
               Bind ''L_after_safepoint_poll'',
               Mov_ri r9 (thread_in_Java vm),
               Lea r10 (BaseOff rthread (thread_state_offset vm)),
               Stlrw r9 r10,
               Ldrb r9 (BaseOff rthread (stack_guard_state_offset vm)),
               Cmpw r9 (stack_guard_yellow_reserved_disabled vm),
               Br EQ ''L_reguard'',
               Bind ''L_after_reguard'',
               ResetLastJavaFrame True,
               Leave,
               Ret lr,
               Bind ''L_safepoint_poll_slow_path'' ]
           @ spill_code True (m_output_registers g) 0
           @ [ Mov_rr c_rarg0 rthread,
               Lea r9 (RuntimeAddress (check_special_condition_for_native_trans vm)),
               Blr r9 ]
           @ spill_code False (m_output_registers g) 0
           @ [ B ''L_after_safepoint_poll'',
               Bind ''L_reguard'' ]
           @ spill_code True (m_output_registers g) 0
           @ [ RtCall (reguard_yellow_pages vm) r9 ]
           @ spill_code False (m_output_registers g) 0
           @ [ B ''L_after_reguard'' ]"
  from c have em: "length (emitted_moves (code res)) = length (moves sh)"
    by (simp add: emitted_moves_append emitted_moves_Cons emitted_moves_Nil
        emitted_moves_spill_code emitted_moves_unpack [OF u] emitted_moves_map_MoveLoc)
  show ?thesis
    apply (rule exI [where x = "[ Enter,
             Sub_rri sp rfp (ucast (push_bit LogBytesPerInt ((word_of_int (g_framesize res) :: 32 word) - 4))),
             SetLastJavaFrame sp rfp (start + 2) r9,
             Mov_ri r9 (thread_in_native vm),
             Lea r10 (BaseOff rthread (thread_state_offset vm)),
             Stlrw r9 r10 ]
           @ map (\<lambda>m. MoveLoc (fst m) (snd m)) (moves sh)
           @ [ Blr r9 ]"])
    apply (rule exI [where x = unpack])
    using u c em apply simp
    done
qed

text \<open>
  C5: behind the native call the stub adjusts the raw return value in \<open>r0\<close> by the
  declared return type: a boolean becomes 0 or 1, a char is zero-extended from 16 bits,
  a byte, a short and an int are sign-extended from 8, 16 and 32 bits to the register
  width, and for float, double, void and long nothing is emitted, so that the general
  and the vector registers stay as they are; every other declared return type is a
  fatal condition of the generator.
\<close>

theorem C5_unpack_native_results:
  "(m_ret_bt g \<in> {T_OBJECT, T_ARRAY, T_ADDRESS, T_NARROWOOP, T_METADATA, T_NARROWKLASS,
                   T_CONFLICT, T_ILLEGAL}
      \<longrightarrow> unpack_native_results (m_ret_bt g) = Inl ShouldNotReachHere
          \<and> isl (NativeInvokerGenerator_generate vm start g))
   \<and> (\<forall>res (s :: machine). NativeInvokerGenerator_generate vm start g = Inr res
          \<and> pc s = 7 + length (emitted_moves (code res)) \<and> returned_to s = None
      \<longrightarrow> (\<exists>unpack s'.
             unpack_native_results (m_ret_bt g) = Inr unpack
           \<and> run vm ext (code res) (length unpack) s = Some s'
           \<and> pc s' = pc s + length unpack
           \<and> code res ! pc s' = Mov_ri r9 (thread_in_native_trans vm)
           \<and> vregs s' = vregs s \<and> mem s' = mem s
           \<and> (\<forall>r. r \<noteq> r0 \<longrightarrow> regs s' r = regs s r)
           \<and> regs s' r0 =
               (case m_ret_bt g of
                  T_BOOLEAN \<Rightarrow> if regs s r0 AND 255 = 0 then 0 else 1
                | T_CHAR \<Rightarrow> ucast (ucast (regs s r0) :: 16 word)
                | T_BYTE \<Rightarrow> scast (ucast (regs s r0) :: 8 word)
                | T_SHORT \<Rightarrow> scast (ucast (regs s r0) :: 16 word)
                | T_INT \<Rightarrow> scast (ucast (regs s r0) :: 32 word)
                | _ \<Rightarrow> regs s r0)))"
proof (intro conjI impI allI)
  assume "m_ret_bt g \<in> {T_OBJECT, T_ARRAY, T_ADDRESS, T_NARROWOOP, T_METADATA, T_NARROWKLASS,
                   T_CONFLICT, T_ILLEGAL}"
  then show "unpack_native_results (m_ret_bt g) = Inl ShouldNotReachHere"
    by (auto simp: unpack_native_results_def)
  then show "isl (NativeInvokerGenerator_generate vm start g)"
    by (auto simp: NativeInvokerGenerator_generate_def Let_def split: sum.splits)
next
  fix res and s :: machine
  assume a: "NativeInvokerGenerator_generate vm start g = Inr res
          \<and> pc s = 7 + length (emitted_moves (code res)) \<and> returned_to s = None"
  then have gen: "NativeInvokerGenerator_generate vm start g = Inr res"
    and pcs: "pc s = 7 + length (emitted_moves (code res))" and rt: "returned_to s = None"
    by simp_all
  from generate_unpack_layout [OF gen] obtain a unpack rest where
    u: "unpack_native_results (m_ret_bt g) = Inr unpack"
    and c: "code res = a @ unpack @ Mov_ri r9 (thread_in_native_trans vm) # rest"
    and la: "length a = pc s"
    using pcs by auto
  have nxt: "code res ! (pc s + length unpack) = Mov_ri r9 (thread_in_native_trans vm)"
    using c la by (simp add: nth_append)
  consider (none) "unpack = []" "m_ret_bt g \<in> {T_DOUBLE, T_FLOAT, T_VOID, T_LONG}"
    | (one) i where "unpack = [i]" "falls_through i"
        "m_ret_bt g \<in> {T_BOOLEAN, T_CHAR, T_BYTE, T_SHORT, T_INT}"
        "i = (case m_ret_bt g of T_BOOLEAN \<Rightarrow> C2bool r0 | T_CHAR \<Rightarrow> Ubfx r0 r0 0 16
               | T_BYTE \<Rightarrow> Sbfx r0 r0 0 8 | T_SHORT \<Rightarrow> Sbfx r0 r0 0 16 | _ \<Rightarrow> Sbfx r0 r0 0 32)"
    using u by (auto simp: unpack_native_results_def split: BasicType.splits)
  then show "\<exists>unpack s'.
             unpack_native_results (m_ret_bt g) = Inr unpack
           \<and> run vm ext (code res) (length unpack) s = Some s'
           \<and> pc s' = pc s + length unpack
           \<and> code res ! pc s' = Mov_ri r9 (thread_in_native_trans vm)
           \<and> vregs s' = vregs s \<and> mem s' = mem s
           \<and> (\<forall>r. r \<noteq> r0 \<longrightarrow> regs s' r = regs s r)
           \<and> regs s' r0 =
               (case m_ret_bt g of
                  T_BOOLEAN \<Rightarrow> if regs s r0 AND 255 = 0 then 0 else 1
                | T_CHAR \<Rightarrow> ucast (ucast (regs s r0) :: 16 word)
                | T_BYTE \<Rightarrow> scast (ucast (regs s r0) :: 8 word)
                | T_SHORT \<Rightarrow> scast (ucast (regs s r0) :: 16 word)
                | T_INT \<Rightarrow> scast (ucast (regs s r0) :: 32 word)
                | _ \<Rightarrow> regs s r0)"
  proof cases
    case none
    with u nxt show ?thesis by auto
  next
    case (one i)
    have "code res ! pc s = i" using c la one(1) by (simp add: nth_append)
    moreover have "pc s < length (code res)" using c la by simp
    ultimately have st: "step vm ext (code res) s = Some (advance (effect vm i s))"
      using rt one(2) by (intro step_falls_through) auto
    show ?thesis
      apply (rule exI [where x = unpack])
      apply (rule exI [where x = "advance (effect vm i s)"])
      using u nxt one st
      apply (auto simp: run.simps(2) advance_def set_reg_def sbfx_8 sbfx_16 sbfx_32 ubfx_16)
      done
  qed
qed


lemma example_byte_generates:
  "\<not> isl (NativeInvokerGenerator_generate example_vm 0 example_byte)"
  by code_simp

lemma example_byte_moves:
  "emitted_moves (code (projr (NativeInvokerGenerator_generate example_vm 0 example_byte))) = []"
  by code_simp

theorem C5_unpack_native_results_witness:
  "\<exists>s'. run example_vm example_extern
           (code (projr (NativeInvokerGenerator_generate example_vm 0 example_byte))) 1
           (example_machine\<lparr>regs := (regs example_machine)(r0 := 0x1FF), pc := 7\<rparr>) = Some s'
        \<and> regs s' r0 = - 1"
proof -
  let ?res = "projr (NativeInvokerGenerator_generate example_vm 0 example_byte)"
  let ?s = "example_machine\<lparr>regs := (regs example_machine)(r0 := 0x1FF), pc := 7\<rparr>"
  have h: "NativeInvokerGenerator_generate example_vm 0 example_byte = Inr ?res"
    using example_byte_generates by simp
  have "NativeInvokerGenerator_generate example_vm 0 example_byte = Inr ?res
          \<and> pc ?s = 7 + length (emitted_moves (code ?res)) \<and> returned_to ?s = None"
    using h by (simp add: example_byte_moves example_machine_def)
  with C5_unpack_native_results [where g = example_byte and vm = example_vm and start = 0
      and ext = example_extern]
  obtain unpack s' where
    u: "unpack_native_results (m_ret_bt example_byte) = Inr unpack"
    and r: "run example_vm example_extern (code ?res) (length unpack) ?s = Some s'"
    and v: "regs s' r0 = (case m_ret_bt example_byte of
                  T_BOOLEAN \<Rightarrow> if regs ?s r0 AND 255 = 0 then 0 else 1
                | T_CHAR \<Rightarrow> ucast (ucast (regs ?s r0) :: 16 word)
                | T_BYTE \<Rightarrow> scast (ucast (regs ?s r0) :: 8 word)
                | T_SHORT \<Rightarrow> scast (ucast (regs ?s r0) :: 16 word)
                | T_INT \<Rightarrow> scast (ucast (regs ?s r0) :: 32 word)
                | _ \<Rightarrow> regs ?s r0)"
    by blast
  from u have "length unpack = 1"
    by (auto simp: example_byte_def unpack_native_results_def)
  moreover from v have "regs s' r0 = - 1"
    by (simp add: example_byte_def example_machine_def)
  ultimately show ?thesis
    using r by (intro exI [where x = s']) (simp only: simp_thms)
qed

section \<open>Running the adapter\<close>

lemma disjoint_regions_not_in:
  "disjoint_regions a n b k \<Longrightarrow> j < k \<Longrightarrow> \<not> in_region a n (b + of_nat j)"
  unfolding disjoint_regions_def
  using separated_fwd separated_bwd by blast

lemma in_region_sub:
  assumes "in_region (a + of_nat d) n x" "d + n \<le> k"
  shows "in_region a k x"
proof -
  have "x - a = (x - (a + of_nat d)) + of_nat d" by simp
  then have "unat (x - a) \<le> unat (x - (a + of_nat d)) + unat (of_nat d :: 64 word)"
    by (metis unat_word_ariths(1) mod_less_eq_dividend)
  moreover have "unat (of_nat d :: 64 word) \<le> d"
    by (simp add: unat_of_nat)
  ultimately show ?thesis
    using assms by (simp add: in_region_def)
qed

lemma load_store_disjoint:
  assumes "disjoint_regions a k b n" "d + l \<le> k"
  shows "load_le (store_le m (a + of_nat d) l v) b n = (load_le m b n :: 'b::len word)"
proof (rule load_store_le_other)
  fix j assume "j < n"
  with assms(1) have "\<not> in_region a k (b + of_nat j)" by (rule disjoint_regions_not_in)
  with assms(2) show "\<not> in_region (a + of_nat d) l (b + of_nat j)"
    using in_region_sub by blast
qed

lemma adapter_code:
  assumes "ProgrammableInvoker_generate abi layout = Inr prog"
  shows "prog =
       [ Enter,
         Mov_rr r10 c_rarg0,
         Str r10 (PreIdx sp (- 16)),
         Ldr r11 (BaseOff r10 (stack_args_bytes layout)),
         Add_rri rscratch2 r11 (word_of_int (stack_alignment_bytes abi - 1)),
         Andr_rri rscratch2 rscratch2 (word_of_int (- stack_alignment_bytes abi)),
         Sub_rrr sp sp rscratch2,
         Ldr r14 (BaseOff r10 (stack_args layout)),
         Lsr r12 r11 3,
         Mov_rr r15 sp,
         Bind ''Lnext'',
         Cbz r12 ''Ldone'',
         Ldr r13 (PostIdx r14 8),
         Str r13 (PostIdx r15 8),
         Sub_rri r12 r12 1,
         B ''Lnext'',
         Bind ''Ldone'' ]
       @ map (\<lambda>i. Ldrq (vector_argument_registers abi ! i)
                 (BaseOff r10 (arguments_vector layout + int i * 16)))
           [0 ..< length (vector_argument_registers abi)]
       @ map (\<lambda>i. Ldr (integer_argument_registers abi ! i)
                 (BaseOff r10 (arguments_integer layout + int i * 8)))
           [0 ..< length (integer_argument_registers abi)]
       @ [ Ldr rscratch2 (BaseOff r10 (arguments_next_pc layout)),
           Blr rscratch2,
           Ldr r10 (BaseOff rfp (- 16)) ]
       @ map (\<lambda>i. Str (integer_return_registers abi ! i)
                 (BaseOff r10 (returns_integer layout + int i * 8)))
           [0 ..< length (integer_return_registers abi)]
       @ map (\<lambda>i. Strq (vector_return_registers abi ! i)
                 (BaseOff r10 (returns_vector layout + int i * 16)))
           [0 ..< length (vector_return_registers abi)]
       @ [ Leave, Ret lr ]"
  using assms
  by (simp add: ProgrammableInvoker_generate_def Let_def wordSize_def LogBytesPerWord_def
      float_reg_size_def sizeof_uintptr_t_def split: if_splits)

lemma run_falls_through:
  "returned_to s = None \<Longrightarrow> pc s < length prog \<Longrightarrow> falls_through (prog ! pc s)
   \<Longrightarrow> run vm ext prog (Suc n) s = run vm ext prog n (advance (effect vm (prog ! pc s) s))"
  by (simp add: step_falls_through run.simps(2))

lemma run_numeral_falls_through:
  "returned_to s = None \<Longrightarrow> pc s < length prog \<Longrightarrow> falls_through (prog ! pc s)
   \<Longrightarrow> run vm ext prog (numeral k) s
       = run vm ext prog (pred_numeral k) (advance (effect vm (prog ! pc s) s))"
  by (simp add: numeral_eq_Suc step_falls_through run.simps(2))

lemma run_numeral:
  "run vm ext prog (numeral k) s =
     (case step vm ext prog s of None \<Rightarrow> None | Some s1 \<Rightarrow> run vm ext prog (pred_numeral k) s1)"
  by (simp add: numeral_eq_Suc run.simps(2))

lemma run_one:
  "run vm ext prog (Suc 0) s = step vm ext prog s"
  by (simp add: run.simps(2) split: option.splits)

lemma run_add:
  "run vm ext prog (m + n) s =
     (case run vm ext prog m s of None \<Rightarrow> None | Some s1 \<Rightarrow> run vm ext prog n s1)"
  by (induction m arbitrary: s) (auto split: option.splits simp: run.simps(2))

lemma run_trans:
  "run vm ext prog m s = Some s1 \<Longrightarrow> run vm ext prog n s1 = Some s2
   \<Longrightarrow> run vm ext prog (m + n) s = Some s2"
  by (simp add: run_add)

text \<open>The first ten operations of the adapter: the frame, the saved record address and
  the reserved stack.\<close>

lemma adapter_prologue:
  fixes s0 :: machine
  assumes gen: "ProgrammableInvoker_generate abi layout = Inr prog"
    and entry: "pc s0 = 0" "returned_to s0 = None"
    and sepa: "disjoint_regions (regs s0 sp - 32) 32
                 (regs s0 c_rarg0 + word_of_int (stack_args_bytes layout)) 8"
    and sepb: "disjoint_regions (regs s0 sp - 32) 32
                 (regs s0 c_rarg0 + word_of_int (stack_args layout)) 8"
  defines "cnt \<equiv> load64 (mem s0) (regs s0 c_rarg0 + word_of_int (stack_args_bytes layout))"
  defines "rsv \<equiv> (cnt + word_of_int (stack_alignment_bytes abi - 1))
                    AND word_of_int (- stack_alignment_bytes abi)"
  shows "\<exists>s. run vm ext prog 10 s0 = Some s \<and> pc s = 10 \<and> returned_to s = None
      \<and> regs s sp = regs s0 sp - 32 - rsv
      \<and> regs s rfp = regs s0 sp - 16
      \<and> regs s r10 = regs s0 c_rarg0
      \<and> regs s r12 = drop_bit 3 cnt
      \<and> regs s r14 = load64 (mem s0) (regs s0 c_rarg0 + word_of_int (stack_args layout))
      \<and> regs s r15 = regs s0 sp - 32 - rsv
      \<and> mem s = store64 (store64 (store64 (mem s0) (regs s0 sp - 16) (regs s0 rfp))
                   (regs s0 sp - 8) (regs s0 lr)) (regs s0 sp - 32) (regs s0 c_rarg0)
      \<and> vregs s = vregs s0 \<and> calls s = calls s0"
proof -
  note code = adapter_code [OF gen]
  have len: "17 \<le> length prog" by (subst code) simp
  have a1: "regs s0 sp - 16 = (regs s0 sp - 32) + of_nat 16"
    and a2: "regs s0 sp - 8 = (regs s0 sp - 32) + of_nat 24"
    and a3: "regs s0 sp - 32 = (regs s0 sp - 32) + of_nat 0"
    by simp_all
  have ld: "load64 (store64 (store64 (store64 (mem s0) (regs s0 sp - 16) v1)
                   (regs s0 sp - 8) v2) (regs s0 sp - 32) v3) b = load64 (mem s0) b"
    if "disjoint_regions (regs s0 sp - 32) 32 b 8" for b v1 v2 v3
    unfolding load64_def store64_def
    apply (subst a3, subst load_store_disjoint [OF that], simp)
    apply (subst a2, subst load_store_disjoint [OF that], simp)
    apply (subst a1, subst load_store_disjoint [OF that], simp)
    apply (rule refl)
    done
  have nth: "prog ! 0 = Enter" "prog ! Suc 0 = Mov_rr r10 c_rarg0"
    "prog ! 2 = Str r10 (PreIdx sp (- 16))"
    "prog ! 3 = Ldr r11 (BaseOff r10 (stack_args_bytes layout))"
    "prog ! 4 = Add_rri rscratch2 r11 (word_of_int (stack_alignment_bytes abi - 1))"
    "prog ! 5 = Andr_rri rscratch2 rscratch2 (word_of_int (- stack_alignment_bytes abi))"
    "prog ! 6 = Sub_rrr sp sp rscratch2"
    "prog ! 7 = Ldr r14 (BaseOff r10 (stack_args layout))"
    "prog ! 8 = Lsr r12 r11 3"
    "prog ! 9 = Mov_rr r15 sp"
    by (subst code, simp)+
  from len have ne: "prog \<noteq> []" by auto
  show ?thesis
    using len ne entry
    by (simp add: run_numeral_falls_through run_falls_through nth advance_def set_reg_def
        set_mem_def Let_def numeral_2_eq_2 [symmetric] ld [OF sepa] ld [OF sepb] rsv_def cnt_def)
qed


lemma in_region_mono: "in_region a n x \<Longrightarrow> n \<le> k \<Longrightarrow> in_region a k x"
  by (simp add: in_region_def)

lemma in_region_split:
  assumes "d < 2 ^ 64"
  shows "in_region a (d + n) x \<longleftrightarrow> in_region a d x \<or> in_region (a + of_nat d) n x"
proof (cases "unat (x - a) < d")
  case True
  then show ?thesis by (simp add: in_region_def)
next
  case False
  have ud: "unat (of_nat d :: 64 word) = d" using assms by (rule unat_of_nat64)
  have "x - (a + of_nat d) = (x - a) - of_nat d" by simp
  moreover have "unat ((x - a) - of_nat d) = unat (x - a) - d"
    using False ud by (simp add: unat_sub_if_size)
  ultimately have "unat (x - (a + of_nat d)) = unat (x - a) - d" by (simp only:)
  with False show ?thesis by (auto simp: in_region_def)
qed

lemma in_region_offset_eq: "in_region a n x \<Longrightarrow> x = a + of_nat (unat (x - a))"
  by simp

lemma label_pos_append_left:
  "label_pos a l = Some p \<Longrightarrow> label_pos (a @ b) l = Some p"
  by (induction a arbitrary: p) (auto split: if_splits)

lemma step_Bind:
  "returned_to s = None \<Longrightarrow> pc s < length prog \<Longrightarrow> prog ! pc s = Bind l
   \<Longrightarrow> step vm ext prog s = Some (advance s)"
  by (simp add: step_falls_through)

text \<open>The copy loop of the adapter, from its head to the label behind it.\<close>

lemma copy_loop:
  fixes s :: machine
  assumes code: "prog ! 10 = Bind ''Lnext''" "prog ! 11 = Cbz r12 ''Ldone''"
      "prog ! 12 = Ldr r13 (PostIdx r14 8)" "prog ! 13 = Str r13 (PostIdx r15 8)"
      "prog ! 14 = Sub_rri r12 r12 1" "prog ! 15 = B ''Lnext''" "17 \<le> length prog"
      "label_pos prog ''Lnext'' = Some 10" "label_pos prog ''Ldone'' = Some 16"
    and s: "pc s = 10" "returned_to s = None" "regs s r12 = of_nat w" "w < 2 ^ 61"
  shows "\<exists>s'. run vm ext prog (6 * w + 2) s = Some s' \<and> pc s' = 16 \<and> returned_to s' = None
      \<and> regs s' r12 = 0
      \<and> (\<forall>r. r \<notin> {r12, r13, r14, r15} \<longrightarrow> regs s' r = regs s r)
      \<and> vregs s' = vregs s \<and> calls s' = calls s
      \<and> (\<forall>x. \<not> in_region (regs s r15) (8 * w) x \<longrightarrow> mem s' x = mem s x)
      \<and> ((\<forall>j<8 * w. \<not> in_region (regs s r15) (8 * w) (regs s r14 + of_nat j))
           \<longrightarrow> (\<forall>x. in_region (regs s r15) (8 * w) x
                  \<longrightarrow> mem s' x = mem s (regs s r14 + (x - regs s r15))))"
  using s
proof (induction w arbitrary: s)
  case 0
  have "run vm ext prog 2 s = Some (s\<lparr>pc := 16\<rparr>)"
    using code "0.prems"
    by (simp add: numeral_2_eq_2 run.simps(2) step_Bind advance_def step.simps branch_if_def jump_def)
  then show ?case
    using "0.prems" by (auto simp: in_region_def numeral_2_eq_2)
next
  case (Suc w)
  let ?src = "regs s r14" and ?dst = "regs s r15"
  let ?m1 = "store64 (mem s) ?dst (load64 (mem s) ?src)"
  let ?s1 = "s\<lparr>mem := ?m1,
                regs := (regs s)(r14 := ?src + 8, r13 := load64 (mem s) ?src, r15 := ?dst + 8,
                  r12 := of_nat w),
                pc := 10\<rparr>"
  have "unat (of_nat (Suc w) :: 64 word) = Suc w"
    using Suc.prems(4) by (intro unat_of_nat64) simp
  then have "(of_nat (Suc w) :: 64 word) \<noteq> 0"
    by (metis Zero_not_Suc unat_0)
  then have nz: "regs s r12 \<noteq> 0"
    using Suc.prems(3) by simp
  have r1: "run vm ext prog 6 s = Some ?s1"
    using code Suc.prems nz
    by (simp add: run_numeral run_one step.simps advance_def set_reg_def
        set_mem_def Let_def branch_if_def jump_def numeral_2_eq_2 [symmetric])
  have w: "w < 2 ^ 61" using Suc.prems(4) by simp
  from Suc.IH [of ?s1, OF _ _ _ w] Suc.prems(2)
  obtain s' where s': "run vm ext prog (6 * w + 2) ?s1 = Some s'" "pc s' = 16"
    "returned_to s' = None" "regs s' r12 = 0"
    "\<forall>r. r \<notin> {r12, r13, r14, r15} \<longrightarrow> regs s' r = regs ?s1 r"
    "vregs s' = vregs s" "calls s' = calls s"
    "\<forall>x. \<not> in_region (?dst + 8) (8 * w) x \<longrightarrow> mem s' x = ?m1 x"
    "(\<forall>j<8 * w. \<not> in_region (?dst + 8) (8 * w) (?src + 8 + of_nat j))
           \<longrightarrow> (\<forall>x. in_region (?dst + 8) (8 * w) x
                  \<longrightarrow> mem s' x = ?m1 (?src + 8 + (x - (?dst + 8))))"
    by auto
  have run: "run vm ext prog (6 * Suc w + 2) s = Some s'"
    using run_trans [OF r1 s'(1)] by (simp add: algebra_simps)
  have split: "in_region ?dst (8 * Suc w) x \<longleftrightarrow> in_region ?dst 8 x \<or> in_region (?dst + 8) (8 * w) x" for x
    using in_region_split [of 8 ?dst "8 * w" x] by simp
  have outside: "\<forall>x. \<not> in_region ?dst (8 * Suc w) x \<longrightarrow> mem s' x = mem s x"
    using s'(8) split by (simp add: store64_def store_le_other)
  have inside: "\<forall>x. in_region ?dst (8 * Suc w) x \<longrightarrow> mem s' x = mem s (?src + (x - ?dst))"
    if disj: "\<forall>j<8 * Suc w. \<not> in_region ?dst (8 * Suc w) (?src + of_nat j)"
  proof (intro allI impI)
    fix x assume x: "in_region ?dst (8 * Suc w) x"
    have src_clear: "?m1 (?src + of_nat j) = mem s (?src + of_nat j)" if "j < 8 * Suc w" for j
    proof -
      from disj that have "\<not> in_region ?dst (8 * Suc w) (?src + of_nat j)" by blast
      then have "\<not> in_region ?dst 8 (?src + of_nat j)" using split by blast
      then show ?thesis by (simp add: store64_def store_le_other)
    qed
    have xj: "unat (x - ?dst) < 8 * Suc w" using x by (simp add: in_region_def)
    have xo: "x - ?dst = of_nat (unat (x - ?dst))" by simp
    show "mem s' x = mem s (?src + (x - ?dst))"
    proof (cases "in_region (?dst + 8) (8 * w) x")
      case True
      have "\<forall>j<8 * w. \<not> in_region (?dst + 8) (8 * w) (?src + 8 + of_nat j)"
      proof (intro allI impI)
        fix j assume "j < 8 * w"
        then have "8 + j < 8 * Suc w" by simp
        with disj have "\<not> in_region ?dst (8 * Suc w) (?src + of_nat (8 + j))" by blast
        then have "\<not> in_region (?dst + 8) (8 * w) (?src + of_nat (8 + j))" using split by blast
        then show "\<not> in_region (?dst + 8) (8 * w) (?src + 8 + of_nat j)" by (simp add: add.assoc)
      qed
      with s'(9) True have "mem s' x = ?m1 (?src + 8 + (x - (?dst + 8)))" by blast
      also have "?src + 8 + (x - (?dst + 8)) = ?src + of_nat (unat (x - ?dst))" by simp
      also have "?m1 \<dots> = mem s \<dots>" using xj by (rule src_clear)
      finally show ?thesis by simp
    next
      case False
      with x split have first: "in_region ?dst 8 x" by blast
      then have j8: "unat (x - ?dst) < 8" by (simp add: in_region_def)
      from False s'(8) have "mem s' x = ?m1 x" by blast
      also have "\<dots> = ucast (drop_bit (8 * unat (x - ?dst)) (load64 (mem s) ?src))"
        using first by (simp add: store64_def store_le_def)
      also have "\<dots> = mem s (?src + of_nat (unat (x - ?dst)))"
        unfolding load64_def using j8 by (rule byte_of_load_le)
      finally show ?thesis by simp
    qed
  qed
  show ?case
    apply (rule exI [where x = s'])
    using run s'(2,3,4,5,6,7) outside inside
    apply simp
    done
qed


lemma adapter_loop_code:
  assumes "ProgrammableInvoker_generate abi layout = Inr prog"
  shows "prog ! 10 = Bind ''Lnext''" "prog ! 11 = Cbz r12 ''Ldone''"
      "prog ! 12 = Ldr r13 (PostIdx r14 8)" "prog ! 13 = Str r13 (PostIdx r15 8)"
      "prog ! 14 = Sub_rri r12 r12 1" "prog ! 15 = B ''Lnext''" "17 \<le> length prog"
      "label_pos prog ''Lnext'' = Some 10" "label_pos prog ''Ldone'' = Some 16"
      "prog ! 16 = Bind ''Ldone''"
proof -
  note code = adapter_code [OF assms]
  show "prog ! 10 = Bind ''Lnext''" "prog ! 11 = Cbz r12 ''Ldone''"
      "prog ! 12 = Ldr r13 (PostIdx r14 8)" "prog ! 13 = Str r13 (PostIdx r15 8)"
      "prog ! 14 = Sub_rri r12 r12 1" "prog ! 15 = B ''Lnext''" "17 \<le> length prog"
      "prog ! 16 = Bind ''Ldone''"
    by (subst code, simp)+
  show "label_pos prog ''Lnext'' = Some 10" "label_pos prog ''Ldone'' = Some 16"
    by (subst code, rule label_pos_append_left, simp)+
qed

lemma drop_bit_3_of_nat: "drop_bit 3 (c :: 64 word) = of_nat (unat c div 8)"
proof -
  have "unat (drop_bit 3 c) = unat c div 8"
    by (simp add: unat_drop_bit_eq drop_bit_eq_div unat_div)
  then show ?thesis by (metis of_nat_unat ucast_id)
qed

text \<open>The adapter from its entry to the label behind the copy loop.\<close>

lemma adapter_copy:
  fixes s0 :: machine
  assumes gen: "ProgrammableInvoker_generate abi layout = Inr prog"
    and entry: "pc s0 = 0" "returned_to s0 = None"
    and sepa: "disjoint_regions (regs s0 sp - 32) 32
                 (regs s0 c_rarg0 + word_of_int (stack_args_bytes layout)) 8"
    and sepb: "disjoint_regions (regs s0 sp - 32) 32
                 (regs s0 c_rarg0 + word_of_int (stack_args layout)) 8"
  defines "cnt \<equiv> load64 (mem s0) (regs s0 c_rarg0 + word_of_int (stack_args_bytes layout))"
  defines "src \<equiv> load64 (mem s0) (regs s0 c_rarg0 + word_of_int (stack_args layout))"
  defines "rsv \<equiv> (cnt + word_of_int (stack_alignment_bytes abi - 1))
                    AND word_of_int (- stack_alignment_bytes abi)"
  defines "dst \<equiv> regs s0 sp - 32 - rsv"
  defines "w \<equiv> unat cnt div 8"
  defines "m1 \<equiv> store64 (store64 (store64 (mem s0) (regs s0 sp - 16) (regs s0 rfp))
                   (regs s0 sp - 8) (regs s0 lr)) (regs s0 sp - 32) (regs s0 c_rarg0)"
  shows "\<exists>s. run vm ext prog (10 + (6 * w + 2)) s0 = Some s \<and> pc s = 16 \<and> returned_to s = None
      \<and> regs s sp = dst
      \<and> regs s rfp = regs s0 sp - 16
      \<and> regs s r12 = 0
      \<and> vregs s = vregs s0 \<and> calls s = calls s0
      \<and> (\<forall>x. \<not> in_region dst (8 * w) x \<longrightarrow> mem s x = m1 x)
      \<and> ((\<forall>j<8 * w. \<not> in_region dst (8 * w) (src + of_nat j))
           \<longrightarrow> (\<forall>x. in_region dst (8 * w) x \<longrightarrow> mem s x = m1 (src + (x - dst))))"
proof -
  from adapter_prologue [OF gen entry sepa sepb, of vm ext]
  obtain sa where sa: "run vm ext prog 10 s0 = Some sa" "pc sa = 10" "returned_to sa = None"
      "regs sa sp = dst" "regs sa rfp = regs s0 sp - 16"
      "regs sa r12 = drop_bit 3 cnt" "regs sa r14 = src" "regs sa r15 = dst"
      "mem sa = m1" "vregs sa = vregs s0" "calls sa = calls s0"
    unfolding cnt_def src_def rsv_def dst_def m1_def by blast
  have w12: "regs sa r12 = of_nat w" using sa(6) by (simp add: drop_bit_3_of_nat w_def)
  have wb: "w < 2 ^ 61"
    using unsigned_less [of cnt, where 'a = nat] by (simp add: w_def)
  from copy_loop [OF adapter_loop_code(1-9) [OF gen] sa(2,3) w12 wb, of vm ext]
  obtain s where r: "run vm ext prog (6 * w + 2) sa = Some s" and rest: "pc s = 16" "returned_to s = None"
      "regs s r12 = 0"
      "\<forall>r. r \<notin> {r12, r13, r14, r15} \<longrightarrow> regs s r = regs sa r"
      "vregs s = vregs sa" "calls s = calls sa"
      "\<forall>x. \<not> in_region (regs sa r15) (8 * w) x \<longrightarrow> mem s x = mem sa x"
      "(\<forall>j<8 * w. \<not> in_region (regs sa r15) (8 * w) (regs sa r14 + of_nat j))
           \<longrightarrow> (\<forall>x. in_region (regs sa r15) (8 * w) x
                  \<longrightarrow> mem s x = mem sa (regs sa r14 + (x - regs sa r15)))"
    by blast
  have "run vm ext prog (10 + (6 * w + 2)) s0 = Some s"
    using sa(1) r by (rule run_trans)
  with sa rest show ?thesis
    by (intro exI [where x = s]) simp
qed

lemma word_of_int_and_64: "(word_of_int (a AND b) :: 64 word) = word_of_int a AND word_of_int b"
  by (rule bit_word_eqI) (simp add: bit_simps)

lemma reserve_eq_align_up:
  "(cnt + word_of_int (a - 1)) AND word_of_int (- a) = (word_of_int (align_up (uint cnt) a) :: 64 word)"
proof -
  have "NOT (a - 1) = - a" by (simp add: not_int_def)
  then show ?thesis
    by (simp add: align_up_def word_of_int_and_64)
qed

lemma align_up_pow2: "align_up x (2 ^ k) = ((x + 2 ^ k - 1) div 2 ^ k) * 2 ^ k"
proof -
  have "(2 :: int) ^ k - 1 = mask k" by (simp add: mask_eq_exp_minus_1)
  then have "align_up x (2 ^ k) = (x + mask k) AND NOT (mask k)" by (simp add: align_up_def)
  also have "\<dots> = ((x + mask k) div 2 ^ k) * 2 ^ k"
    by (simp add: and_not_mask_int push_bit_eq_mult drop_bit_eq_div)
  finally show ?thesis by (simp add: mask_eq_exp_minus_1 algebra_simps)
qed

lemma align_up_pow2_bounds:
  "x \<le> align_up x (2 ^ k)" "align_up x (2 ^ k) < x + 2 ^ k"
proof -
  let ?a = "(2 :: int) ^ k"
  have pos: "0 < ?a" by simp
  have "align_up x ?a = (x + ?a - 1) - (x + ?a - 1) mod ?a"
    by (simp add: align_up_pow2 algebra_simps minus_mod_eq_mult_div)
  moreover have "0 \<le> (x + ?a - 1) mod ?a" "(x + ?a - 1) mod ?a < ?a"
    using pos by simp_all
  ultimately show "x \<le> align_up x ?a" "align_up x ?a < x + ?a" by linarith+
qed


lemma adapter_generates: 
  "\<not> isl (ProgrammableInvoker_generate example_abi example_layout)"
  by code_simp

lemma example_load_count:
  "load64 (mem (example_adapter_state c)) 0x1000 = c"
proof -
  have "disjoint_regions (0x1000 :: 64 word) 8 0x1000 8 \<or> True" by simp
  have d: "disjoint_regions (0x1008 :: 64 word) 8 0x1000 8"
    by (simp add: disjoint_regions_def separated_def)
  have "load64 (store64 (store64 m 0x1000 c) (0x1008 + of_nat 0) (0x2000 :: 64 word)) 0x1000
      = load64 (store64 m 0x1000 c) 0x1000" for m
    unfolding load64_def store64_def by (rule load_store_disjoint [OF d]) simp
  then show ?thesis
    by (simp add: example_adapter_state_def load64_def store64_def load_store_le_same)
qed

lemma example_load_src:
  "load64 (mem (example_adapter_state c)) 0x1008 = 0x2000"
  by (simp add: example_adapter_state_def load64_def store64_def load_store_le_same)

text \<open>
  C7: before it copies the stack arguments the adapter stub lowers the stack pointer by
  \<open>(count + alignment - 1) & -alignment\<close>, where \<open>count\<close> is the stack-argument byte
  count read from the context record; for an alignment that is a power of two, and a
  count that leaves room for the rounding in 64 bits, this is exactly the count rounded
  up to the next multiple of the alignment.  For a count of 17 and an alignment of 16
  it is 32 bytes.
\<close>

theorem C7_stack_reservation:
  fixes s0 :: machine
  assumes gen: "ProgrammableInvoker_generate abi layout = Inr prog"
    and entry: "pc s0 = 0" "returned_to s0 = None"
    and sepa: "disjoint_regions (regs s0 sp - 32) 32
                 (regs s0 c_rarg0 + word_of_int (stack_args_bytes layout)) 8"
    and pow: "stack_alignment_bytes abi = 2 ^ k"
    and fit: "uint (load64 (mem s0) (regs s0 c_rarg0 + word_of_int (stack_args_bytes layout)))
                + 2 ^ k \<le> 2 ^ 64"
  shows "\<exists>s6 s7. run vm ext prog 6 s0 = Some s6 \<and> run vm ext prog 7 s0 = Some s7
      \<and> pc s7 = 7 \<and> prog ! 7 = Ldr r14 (BaseOff r10 (stack_args layout))
      \<and> regs s7 sp = regs s6 sp -
           ((load64 (mem s0) (regs s0 c_rarg0 + word_of_int (stack_args_bytes layout))
               + word_of_int (stack_alignment_bytes abi - 1))
            AND word_of_int (- stack_alignment_bytes abi))
      \<and> uint (regs s6 sp - regs s7 sp)
          = align_up (uint (load64 (mem s0) (regs s0 c_rarg0 + word_of_int (stack_args_bytes layout))))
              (stack_alignment_bytes abi)
      \<and> align_up (uint (load64 (mem s0) (regs s0 c_rarg0 + word_of_int (stack_args_bytes layout))))
              (stack_alignment_bytes abi)
          = ((uint (load64 (mem s0) (regs s0 c_rarg0 + word_of_int (stack_args_bytes layout)))
               + stack_alignment_bytes abi - 1) div stack_alignment_bytes abi)
            * stack_alignment_bytes abi"
proof -
  let ?cnt = "load64 (mem s0) (regs s0 c_rarg0 + word_of_int (stack_args_bytes layout))"
  let ?rsv = "(?cnt + word_of_int (stack_alignment_bytes abi - 1))
                AND word_of_int (- stack_alignment_bytes abi)"
  note code = adapter_code [OF gen]
  have len: "17 \<le> length prog" by (subst code) simp
  from len have ne: "prog \<noteq> []" by auto
  have a1: "regs s0 sp - 16 = (regs s0 sp - 32) + of_nat 16"
    and a2: "regs s0 sp - 8 = (regs s0 sp - 32) + of_nat 24"
    and a3: "regs s0 sp - 32 = (regs s0 sp - 32) + of_nat 0"
    by simp_all
  have ld: "load64 (store64 (store64 (store64 (mem s0) (regs s0 sp - 16) v1)
                   (regs s0 sp - 8) v2) (regs s0 sp - 32) v3) b = load64 (mem s0) b"
    if "disjoint_regions (regs s0 sp - 32) 32 b 8" for b v1 v2 v3
    unfolding load64_def store64_def
    apply (subst a3, subst load_store_disjoint [OF that], simp)
    apply (subst a2, subst load_store_disjoint [OF that], simp)
    apply (subst a1, subst load_store_disjoint [OF that], simp)
    apply (rule refl)
    done
  have nth: "prog ! 0 = Enter" "prog ! Suc 0 = Mov_rr r10 c_rarg0"
    "prog ! 2 = Str r10 (PreIdx sp (- 16))"
    "prog ! 3 = Ldr r11 (BaseOff r10 (stack_args_bytes layout))"
    "prog ! 4 = Add_rri rscratch2 r11 (word_of_int (stack_alignment_bytes abi - 1))"
    "prog ! 5 = Andr_rri rscratch2 rscratch2 (word_of_int (- stack_alignment_bytes abi))"
    "prog ! 6 = Sub_rrr sp sp rscratch2"
    "prog ! 7 = Ldr r14 (BaseOff r10 (stack_args layout))"
    by (subst code, simp)+
  have r6: "\<exists>s6. run vm ext prog 6 s0 = Some s6 \<and> pc s6 = 6 \<and> returned_to s6 = None
      \<and> regs s6 sp = regs s0 sp - 32 \<and> regs s6 r9 = ?rsv"
    using len ne entry
    by (simp add: run_numeral_falls_through run_falls_through nth advance_def set_reg_def
        set_mem_def Let_def numeral_2_eq_2 [symmetric] ld [OF sepa])
  then obtain s6 where s6: "run vm ext prog 6 s0 = Some s6" "pc s6 = 6" "returned_to s6 = None"
      "regs s6 sp = regs s0 sp - 32" "regs s6 r9 = ?rsv"
    by blast
  let ?s7 = "advance (effect vm (prog ! 6) s6)"
  have "run vm ext prog (6 + 1) s0 = Some ?s7"
    using s6 len by (intro run_trans [OF s6(1)]) (simp add: run_one step_falls_through nth)
  then have r7: "run vm ext prog 7 s0 = Some ?s7" by simp
  have sp7: "regs ?s7 sp = regs s6 sp - ?rsv" "pc ?s7 = 7"
    using s6 by (simp_all add: nth advance_def set_reg_def)
  have rsv: "?rsv = word_of_int (align_up (uint ?cnt) (2 ^ k))"
    unfolding pow by (rule reserve_eq_align_up)
  have "0 \<le> align_up (uint ?cnt) (2 ^ k)" "align_up (uint ?cnt) (2 ^ k) < 2 ^ 64"
    using align_up_pow2_bounds [of "uint ?cnt" k] fit uint_ge_0 [of ?cnt] by linarith+
  then have "uint (word_of_int (align_up (uint ?cnt) (2 ^ k)) :: 64 word) = align_up (uint ?cnt) (2 ^ k)"
    by (simp add: uint_word_of_int take_bit_int_eq_self)
  then have u: "uint (regs s6 sp - regs ?s7 sp) = align_up (uint ?cnt) (stack_alignment_bytes abi)"
    using sp7(1) rsv by (simp add: pow)
  show ?thesis
    apply (rule exI [where x = s6])
    apply (rule exI [where x = ?s7])
    using s6(1) r7 sp7 u nth(8) align_up_pow2 [of "uint ?cnt" k]
    apply (simp add: pow)
    done
qed

theorem C7_stack_reservation_witness:
  "\<exists>s6 s7. run example_vm example_extern (projr (ProgrammableInvoker_generate example_abi example_layout))
              6 (example_adapter_state 17) = Some s6
     \<and> run example_vm example_extern (projr (ProgrammableInvoker_generate example_abi example_layout))
              7 (example_adapter_state 17) = Some s7
     \<and> uint (regs s6 sp - regs s7 sp) = 32"
proof -
  let ?prog = "projr (ProgrammableInvoker_generate example_abi example_layout)"
  have gen: "ProgrammableInvoker_generate example_abi example_layout = Inr ?prog"
    using adapter_generates by simp
  have entry: "pc (example_adapter_state 17) = 0" "returned_to (example_adapter_state 17) = None"
    by (simp_all add: example_adapter_state_def)
  have sepa: "disjoint_regions (regs (example_adapter_state 17) sp - 32) 32
      (regs (example_adapter_state 17) c_rarg0 + word_of_int (stack_args_bytes example_layout)) 8"
    by (simp add: example_adapter_state_def example_layout_def disjoint_regions_def separated_def)
  have pow: "stack_alignment_bytes example_abi = 2 ^ 4"
    by (simp add: example_abi_def)
  have cnt: "load64 (mem (example_adapter_state 17))
      (regs (example_adapter_state 17) c_rarg0 + word_of_int (stack_args_bytes example_layout)) = 17"
    using example_load_count [of 17] by (simp add: example_adapter_state_def example_layout_def)
  have fit: "uint (load64 (mem (example_adapter_state 17))
      (regs (example_adapter_state 17) c_rarg0 + word_of_int (stack_args_bytes example_layout)))
        + 2 ^ 4 \<le> 2 ^ 64"
    by (simp add: cnt)
  have "align_up 17 16 = 32" by (simp add: align_up_def)
  with C7_stack_reservation [OF gen entry sepa pow fit, of example_vm example_extern]
  show ?thesis
    by (simp add: cnt example_abi_def) blast
qed


lemma frame_stores_other:
  assumes "\<not> in_region (a - 32) 32 x"
  shows "store64 (store64 (store64 m (a - 16) v1) (a - 8) v2) (a - 32) v3 x = m x"
proof -
  have a1: "a - 16 = (a - 32) + of_nat 16" and a2: "a - 8 = (a - 32) + of_nat 24"
    and a3: "a - 32 = (a - 32) + of_nat 0"
    by simp_all
  have "\<not> in_region (a - 16) 8 x" "\<not> in_region (a - 8) 8 x" "\<not> in_region (a - 32) 8 x"
    using assms in_region_sub [of "a - 32" 16 8 x 32] in_region_sub [of "a - 32" 24 8 x 32]
      in_region_sub [of "a - 32" 0 8 x 32]
    by (auto simp: a1 [symmetric] a2 [symmetric])
  then show ?thesis
    by (simp add: store64_def store_le_other)
qed

text \<open>
  C3, as amended: the forward copy loop of the adapter stub copies the whole words of
  the declared stack-argument block, \<open>count div 8\<close> words of eight bytes, onto the
  newly reserved stack area and ends at the label behind the loop with a remaining word
  count of zero; the bytes copied are the first \<open>8 * (count div 8)\<close> bytes of the
  block, which is the whole block exactly when the count is a multiple of eight.
\<close>

theorem C3_copy_loop_whole_words:
  fixes s0 :: machine
  assumes gen: "ProgrammableInvoker_generate abi layout = Inr prog"
    and entry: "pc s0 = 0" "returned_to s0 = None"
    and sepa: "disjoint_regions (regs s0 sp - 32) 32
                 (regs s0 c_rarg0 + word_of_int (stack_args_bytes layout)) 8"
    and sepb: "disjoint_regions (regs s0 sp - 32) 32
                 (regs s0 c_rarg0 + word_of_int (stack_args layout)) 8"
  defines "cnt \<equiv> load64 (mem s0) (regs s0 c_rarg0 + word_of_int (stack_args_bytes layout))"
  defines "src \<equiv> load64 (mem s0) (regs s0 c_rarg0 + word_of_int (stack_args layout))"
  defines "dst \<equiv> regs s0 sp - 32 -
                    ((cnt + word_of_int (stack_alignment_bytes abi - 1))
                      AND word_of_int (- stack_alignment_bytes abi))"
  defines "w \<equiv> unat cnt div 8"
  assumes src_frame: "disjoint_regions (regs s0 sp - 32) 32 src (8 * w)"
    and src_dst: "disjoint_regions dst (8 * w) src (8 * w)"
  shows "\<exists>s. run vm ext prog (10 + (6 * w + 2)) s0 = Some s
      \<and> pc s = 16 \<and> prog ! 16 = Bind ''Ldone''
      \<and> regs s r12 = 0
      \<and> regs s sp = dst
      \<and> (\<forall>j<8 * w. mem s (regs s sp + of_nat j) = mem s0 (src + of_nat j))
      \<and> 8 * w \<le> unat cnt
      \<and> (unat cnt \<le> 8 * w) = (8 dvd unat cnt)"
proof -
  let ?m1 = "store64 (store64 (store64 (mem s0) (regs s0 sp - 16) (regs s0 rfp))
                   (regs s0 sp - 8) (regs s0 lr)) (regs s0 sp - 32) (regs s0 c_rarg0)"
  from adapter_copy [OF gen entry sepa sepb, of vm ext]
  obtain s where s: "run vm ext prog (10 + (6 * w + 2)) s0 = Some s" "pc s = 16"
      "regs s sp = dst" "regs s r12 = 0"
      "(\<forall>j<8 * w. \<not> in_region dst (8 * w) (src + of_nat j))
           \<longrightarrow> (\<forall>x. in_region dst (8 * w) x \<longrightarrow> mem s x = ?m1 (src + (x - dst)))"
    unfolding cnt_def src_def dst_def w_def by blast
  have w64: "8 * w < 2 ^ 64"
    using unsigned_less [of cnt, where 'a = nat] by (simp add: w_def)
  have "\<forall>j<8 * w. \<not> in_region dst (8 * w) (src + of_nat j)"
    using src_dst disjoint_regions_not_in by blast
  with s(5) have inside: "\<forall>x. in_region dst (8 * w) x \<longrightarrow> mem s x = ?m1 (src + (x - dst))"
    by blast
  have copy: "mem s (regs s sp + of_nat j) = mem s0 (src + of_nat j)" if j: "j < 8 * w" for j
  proof -
    from j w64 have "in_region dst (8 * w) (dst + of_nat j)"
      by (simp add: in_region_offset)
    with inside have "mem s (dst + of_nat j) = ?m1 (src + of_nat j)" by fastforce
    moreover have "\<not> in_region (regs s0 sp - 32) 32 (src + of_nat j)"
      using src_frame j by (rule disjoint_regions_not_in)
    ultimately show ?thesis
      using s(3) by (simp add: frame_stores_other)
  qed
  show ?thesis
    apply (rule exI [where x = s])
    using s(1,2,3,4) copy adapter_loop_code(10) [OF gen]
    apply (simp add: w_def)
    apply presburger
    done
qed

theorem C3_copy_loop_whole_words_witness:
  "\<exists>s. run example_vm example_extern (projr (ProgrammableInvoker_generate example_abi example_layout))
          24 (example_adapter_state 16) = Some s
     \<and> pc s = 16 \<and> regs s r12 = 0
     \<and> mem s (regs s sp + 15) = 0xAB"
proof -
  let ?prog = "projr (ProgrammableInvoker_generate example_abi example_layout)"
  let ?s0 = "example_adapter_state 16"
  have gen: "ProgrammableInvoker_generate example_abi example_layout = Inr ?prog"
    using adapter_generates by simp
  have entry: "pc ?s0 = 0" "returned_to ?s0 = None"
    by (simp_all add: example_adapter_state_def)
  have r: "regs ?s0 sp = 0x8000" "regs ?s0 c_rarg0 = 0x1000"
    by (simp_all add: example_adapter_state_def)
  have l: "stack_args_bytes example_layout = 0" "stack_args example_layout = 8"
    "stack_alignment_bytes example_abi = 16"
    by (simp_all add: example_layout_def example_abi_def)
  have cnt: "load64 (mem ?s0) 0x1000 = 16" by (rule example_load_count)
  have src: "load64 (mem ?s0) 0x1008 = 0x2000" by (rule example_load_src)
  have sepa: "disjoint_regions (regs ?s0 sp - 32) 32
      (regs ?s0 c_rarg0 + word_of_int (stack_args_bytes example_layout)) 8"
    by (simp add: r l disjoint_regions_def separated_def)
  have sepb: "disjoint_regions (regs ?s0 sp - 32) 32
      (regs ?s0 c_rarg0 + word_of_int (stack_args example_layout)) 8"
    by (simp add: r l disjoint_regions_def separated_def)
  have src_frame: "disjoint_regions (regs ?s0 sp - 32) 32
      (load64 (mem ?s0) (regs ?s0 c_rarg0 + word_of_int (stack_args example_layout)))
      (8 * (unat (load64 (mem ?s0) (regs ?s0 c_rarg0 + word_of_int (stack_args_bytes example_layout))) div 8))"
    by (simp add: r l cnt src disjoint_regions_def separated_def)
  have src_dst: "disjoint_regions
      (regs ?s0 sp - 32 -
        ((load64 (mem ?s0) (regs ?s0 c_rarg0 + word_of_int (stack_args_bytes example_layout))
            + word_of_int (stack_alignment_bytes example_abi - 1))
          AND word_of_int (- stack_alignment_bytes example_abi)))
      (8 * (unat (load64 (mem ?s0) (regs ?s0 c_rarg0 + word_of_int (stack_args_bytes example_layout))) div 8))
      (load64 (mem ?s0) (regs ?s0 c_rarg0 + word_of_int (stack_args example_layout)))
      (8 * (unat (load64 (mem ?s0) (regs ?s0 c_rarg0 + word_of_int (stack_args_bytes example_layout))) div 8))"
    by (simp add: r l cnt src disjoint_regions_def separated_def)
  have m: "mem ?s0 (0x2000 + 15) = 0xAB"
    by (simp add: example_adapter_state_def store64_def store_le_def in_region_def)
  from C3_copy_loop_whole_words [OF gen entry sepa sepb src_frame src_dst, of example_vm example_extern]
  obtain s where s: "run example_vm example_extern ?prog 24 ?s0 = Some s" "pc s = 16"
     "regs s r12 = 0" "\<forall>j<16. mem s (regs s sp + of_nat j) = mem ?s0 (0x2000 + of_nat j)"
    by (auto simp: r l cnt src)
  from s(4) [rule_format, of 15] have "mem s (regs s sp + 15) = mem ?s0 (0x2000 + 15)" by simp
  with m s(1,2,3) show ?thesis by auto
qed

text \<open>
  For a declared count of 17 bytes the loop copies two words: the seventeenth byte of
  the block does not reach the stack.
\<close>

theorem C3_copy_loop_17_counterexample:
  "run example_vm example_extern (projr (ProgrammableInvoker_generate example_abi example_layout))
      24 (example_adapter_state 17) \<noteq> None
   \<and> pc (the (run example_vm example_extern
        (projr (ProgrammableInvoker_generate example_abi example_layout))
        24 (example_adapter_state 17))) = 16
   \<and> regs (the (run example_vm example_extern
        (projr (ProgrammableInvoker_generate example_abi example_layout))
        24 (example_adapter_state 17))) sp = 0x7FC0
   \<and> mem (the (run example_vm example_extern
        (projr (ProgrammableInvoker_generate example_abi example_layout))
        24 (example_adapter_state 17))) (0x7FC0 + 16) = 0
   \<and> mem (example_adapter_state 17) (0x2000 + 16) = 0xAB"
proof -
  let ?prog = "projr (ProgrammableInvoker_generate example_abi example_layout)"
  let ?s0 = "example_adapter_state 17"
  have gen: "ProgrammableInvoker_generate example_abi example_layout = Inr ?prog"
    using adapter_generates by simp
  have entry: "pc ?s0 = 0" "returned_to ?s0 = None"
    by (simp_all add: example_adapter_state_def)
  have r: "regs ?s0 sp = 0x8000" "regs ?s0 c_rarg0 = 0x1000"
    by (simp_all add: example_adapter_state_def)
  have l: "stack_args_bytes example_layout = 0" "stack_args example_layout = 8"
    "stack_alignment_bytes example_abi = 16"
    by (simp_all add: example_layout_def example_abi_def)
  have cnt: "load64 (mem ?s0) 0x1000 = 17" by (rule example_load_count)
  have src: "load64 (mem ?s0) 0x1008 = 0x2000" by (rule example_load_src)
  have sepa: "disjoint_regions (regs ?s0 sp - 32) 32
      (regs ?s0 c_rarg0 + word_of_int (stack_args_bytes example_layout)) 8"
    by (simp add: r l disjoint_regions_def separated_def)
  have sepb: "disjoint_regions (regs ?s0 sp - 32) 32
      (regs ?s0 c_rarg0 + word_of_int (stack_args example_layout)) 8"
    by (simp add: r l disjoint_regions_def separated_def)
  let ?m1 = "store64 (store64 (store64 (mem ?s0) (0x8000 - 16) (regs ?s0 rfp))
                   (0x8000 - 8) (regs ?s0 lr)) (0x8000 - 32) 0x1000"
  from adapter_copy [OF gen entry sepa sepb, of example_vm example_extern]
  obtain s where s: "run example_vm example_extern ?prog 24 ?s0 = Some s" "pc s = 16"
      "regs s sp = 0x7FC0"
      "\<forall>x. \<not> in_region 0x7FC0 16 x \<longrightarrow> mem s x = ?m1 x"
    by (auto simp: r l cnt src)
  have "\<not> in_region (0x7FC0 :: 64 word) 16 (0x7FC0 + 16)" by (simp add: in_region_def)
  with s(4) have "mem s (0x7FC0 + 16) = ?m1 (0x7FC0 + 16)" by blast
  also have "\<dots> = 0"
    by (simp add: example_adapter_state_def store64_def store_le_def in_region_def)
  finally have "mem s (0x7FC0 + 16) = 0" .
  moreover have "mem ?s0 (0x2000 + 16) = 0xAB"
    by (simp add: example_adapter_state_def store64_def store_le_def in_region_def)
  ultimately show ?thesis using s(1,2,3) by simp
qed

lemma run_loads:
  fixes s :: machine
  assumes "returned_to s = None" "pc s + length blk \<le> length prog"
    "\<forall>j<length blk. prog ! (pc s + j) = blk ! j"
    "\<forall>i\<in>set blk. (\<exists>q b off. i = Ldrq q (BaseOff b off))
                 \<or> (\<exists>r b off. i = Ldr r (BaseOff b off) \<and> r \<notin> keep)"
  shows "\<exists>s'. run vm ext prog (length blk) s = Some s' \<and> pc s' = pc s + length blk
      \<and> returned_to s' = None \<and> mem s' = mem s \<and> calls s' = calls s
      \<and> (\<forall>r\<in>keep. regs s' r = regs s r)"
  using assms
proof (induction blk arbitrary: s)
  case Nil
  then show ?case by simp
next
  case (Cons i blk)
  let ?s1 = "advance (effect vm i s)"
  from Cons.prems(3) have i: "prog ! pc s = i" by (metis add.right_neutral length_greater_0_conv list.distinct(1) nth_Cons_0)
  from Cons.prems(4) have kind: "(\<exists>q b off. i = Ldrq q (BaseOff b off))
                 \<or> (\<exists>r b off. i = Ldr r (BaseOff b off) \<and> r \<notin> keep)" by simp
  then have ft: "falls_through i" by auto
  have st: "step vm ext prog s = Some ?s1"
    using Cons.prems(1,2) i ft by (intro step_falls_through) auto
  have s1: "pc ?s1 = pc s + 1" "returned_to ?s1 = None" "mem ?s1 = mem s" "calls ?s1 = calls s"
    "\<forall>r\<in>keep. regs ?s1 r = regs s r"
    using kind Cons.prems(1) by (auto simp: advance_def set_reg_def set_vreg_def)
  have nth': "\<forall>j<length blk. prog ! (pc ?s1 + j) = blk ! j"
  proof (intro allI impI)
    fix j assume "j < length blk"
    then have "prog ! (pc s + Suc j) = (i # blk) ! Suc j" using Cons.prems(3) by (metis Suc_less_eq length_Cons)
    then show "prog ! (pc ?s1 + j) = blk ! j" by (simp add: s1(1))
  qed
  from Cons.IH [of ?s1, OF s1(2) _ nth'] Cons.prems(2,4) s1
  obtain s' where "run vm ext prog (length blk) ?s1 = Some s'" "pc s' = pc ?s1 + length blk"
     "returned_to s' = None" "mem s' = mem ?s1" "calls s' = calls ?s1"
     "\<forall>r\<in>keep. regs s' r = regs ?s1 r"
    by auto
  with st s1 show ?case
    by (intro exI [where x = s']) (simp add: run.simps(2))
qed

lemma adapter_call_code:
  assumes gen: "ProgrammableInvoker_generate abi layout = Inr prog"
    and args: "\<forall>r\<in>set (integer_argument_registers abi). r \<notin> keep"
  shows "\<exists>pre blk rest. length pre = 17 \<and> prog = pre @ blk
           @ [ Ldr rscratch2 (BaseOff r10 (arguments_next_pc layout)),
               Blr rscratch2,
               Ldr r10 (BaseOff rfp (- 16)) ]
           @ map (\<lambda>i. Str (integer_return_registers abi ! i)
                 (BaseOff r10 (returns_integer layout + int i * 8)))
               [0 ..< length (integer_return_registers abi)]
           @ rest
         \<and> length blk = length (vector_argument_registers abi)
                         + length (integer_argument_registers abi)
         \<and> (\<forall>i\<in>set blk. (\<exists>q b off. i = Ldrq q (BaseOff b off))
                 \<or> (\<exists>r b off. i = Ldr r (BaseOff b off) \<and> r \<notin> keep))"
  apply (rule exI [where x = "take 17 prog"])
  apply (rule exI [where x = "map (\<lambda>i. Ldrq (vector_argument_registers abi ! i)
                 (BaseOff r10 (arguments_vector layout + int i * 16)))
           [0 ..< length (vector_argument_registers abi)]
       @ map (\<lambda>i. Ldr (integer_argument_registers abi ! i)
                 (BaseOff r10 (arguments_integer layout + int i * 8)))
           [0 ..< length (integer_argument_registers abi)]"])
  apply (rule exI [where x = "map (\<lambda>i. Strq (vector_return_registers abi ! i)
                 (BaseOff r10 (returns_vector layout + int i * 16)))
           [0 ..< length (vector_return_registers abi)]
       @ [ Leave, Ret lr ]"])
  apply (subst (1 2 3) adapter_code [OF gen])
  using args apply auto
  done


lemma uint_bounds_unat:
  fixes c r :: "64 word"
  assumes ur: "uint c \<le> uint r" "uint r + 32 < 2 ^ 64"
  shows "unat c \<le> unat r" "unat r + 32 < 2 ^ 64"
proof -
  show "unat c \<le> unat r" using ur(1) by (simp add: word_le_nat_alt [symmetric] word_le_def)
  have "int (unat r + 32) < int (2 ^ 64)" using ur(2) by simp
  then show "unat r + 32 < 2 ^ 64" by (simp only: of_nat_less_iff)
qed

lemma step_Blr:
  "returned_to s = None \<Longrightarrow> pc s < length prog \<Longrightarrow> prog ! pc s = Blr r
   \<Longrightarrow> step vm ext prog s = Some (call_extern ext (regs s r) s)"
  by (simp add: step.simps)

lemma call_extern_frame:
  assumes "preserves_frame (ext t)"
  shows "regs (call_extern ext t s) rfp = regs s rfp"
    and "regs (call_extern ext t s) sp = regs s sp"
    and "in_region (regs s sp) (unat (regs s rfp + 16 - regs s sp)) a
         \<Longrightarrow> mem (call_extern ext t s) a = mem s a"
    and "pc (call_extern ext t s) = pc s + 1"
    and "returned_to (call_extern ext t s) = None"
    and "calls (call_extern ext t s) = calls s @ [(t, regs s c_rarg0)]"
  using assms [unfolded preserves_frame_def, rule_format, of "set_reg lr (of_nat (pc s + 1)) s"]
  by (simp_all add: call_extern_def Let_def set_reg_def)

text \<open>
  C9: the adapter stub stores the address of the context record into the frame slot two
  words below the frame pointer before the native call and reloads it from that slot
  behind the call, so that the base register of the stores of the return registers
  holds the address the stub was called with, whatever the callee does to the
  caller-saved registers, as long as it returns with the stack pointer, the frame
  pointer and the caller's frame intact.
\<close>

theorem C9_context_address_persisted:
  fixes s0 :: machine
  assumes gen: "ProgrammableInvoker_generate abi layout = Inr prog"
    and entry: "pc s0 = 0" "returned_to s0 = None"
    and sepa: "disjoint_regions (regs s0 sp - 32) 32
                 (regs s0 c_rarg0 + word_of_int (stack_args_bytes layout)) 8"
    and sepb: "disjoint_regions (regs s0 sp - 32) 32
                 (regs s0 c_rarg0 + word_of_int (stack_args layout)) 8"
    and pow: "stack_alignment_bytes abi = 2 ^ k"
    and fit: "uint (load64 (mem s0) (regs s0 c_rarg0 + word_of_int (stack_args_bytes layout)))
                + 2 ^ k + 32 \<le> 2 ^ 64"
    and args: "\<forall>r\<in>set (integer_argument_registers abi). r \<notin> {rfp, sp}"
    and callee: "\<forall>t. preserves_frame (ext t)"
  shows "\<exists>n s. run vm ext prog n s0 = Some s
      \<and> pc s = 20 + length (vector_argument_registers abi) + length (integer_argument_registers abi)
      \<and> prog ! 2 = Str r10 (PreIdx sp (- 16))
      \<and> prog ! (pc s - 2) = Blr rscratch2
      \<and> prog ! (pc s - 1) = Ldr r10 (BaseOff rfp (- 16))
      \<and> length (calls s) = Suc (length (calls s0))
      \<and> regs s r10 = regs s0 c_rarg0
      \<and> (\<forall>i<length (integer_return_registers abi).
            prog ! (pc s + i) = Str (integer_return_registers abi ! i)
                                  (BaseOff r10 (returns_integer layout + int i * 8)))"
proof -
  let ?cnt = "load64 (mem s0) (regs s0 c_rarg0 + word_of_int (stack_args_bytes layout))"
  let ?rsv = "(?cnt + word_of_int (stack_alignment_bytes abi - 1))
                AND word_of_int (- stack_alignment_bytes abi)"
  let ?dst = "regs s0 sp - 32 - ?rsv"
  let ?w = "unat ?cnt div 8"
  let ?m1 = "store64 (store64 (store64 (mem s0) (regs s0 sp - 16) (regs s0 rfp))
                   (regs s0 sp - 8) (regs s0 lr)) (regs s0 sp - 32) (regs s0 c_rarg0)"
  let ?slot = "regs s0 sp - 32"
  \<comment> \<open>the size of the reserved area\<close>
  have rsv: "?rsv = word_of_int (align_up (uint ?cnt) (2 ^ k))"
    unfolding pow by (rule reserve_eq_align_up)
  have b: "uint ?cnt \<le> align_up (uint ?cnt) (2 ^ k)" "align_up (uint ?cnt) (2 ^ k) < uint ?cnt + 2 ^ k"
    by (rule align_up_pow2_bounds)+
  have "0 \<le> align_up (uint ?cnt) (2 ^ k)" "align_up (uint ?cnt) (2 ^ k) < 2 ^ 64"
    using b fit uint_ge_0 [of ?cnt] by linarith+
  then have "uint (word_of_int (align_up (uint ?cnt) (2 ^ k)) :: 64 word) = align_up (uint ?cnt) (2 ^ k)"
    by (simp add: uint_word_of_int take_bit_int_eq_self)
  then have "uint ?rsv = align_up (uint ?cnt) (2 ^ k)"
    by (simp only: rsv)
  with b fit have ur: "uint ?cnt \<le> uint ?rsv" "uint ?rsv + 32 < 2 ^ 64" by linarith+
  then have un: "unat ?cnt \<le> unat ?rsv" "unat ?rsv + 32 < 2 ^ 64"
    by (rule uint_bounds_unat)+
  have w8: "8 * ?w \<le> unat ?rsv" using un(1) by linarith
  have slot_off: "unat (?slot + of_nat j - ?dst) = unat ?rsv + j" if "j < 8" for j
  proof -
    have "?slot + of_nat j - ?dst = ?rsv + of_nat j" by simp
    moreover have "unat (?rsv + of_nat j) = unat ?rsv + j"
      using un(2) that by (simp add: unat_word_ariths unat_of_nat64)
    ultimately show ?thesis by (simp only:)
  qed
  have frame_len: "unat (regs s0 sp - 16 + 16 - ?dst) = unat ?rsv + 32"
  proof -
    have "regs s0 sp - 16 + 16 - ?dst = ?rsv + 32" by simp
    moreover have "unat (?rsv + 32) = unat ?rsv + 32"
      using un(2) by (simp add: unat_word_ariths)
    ultimately show ?thesis by (simp only:)
  qed
  \<comment> \<open>up to the end of the copy loop\<close>
  from adapter_copy [OF gen entry sepa sepb, of vm ext]
  obtain sl where sl: "run vm ext prog (10 + (6 * ?w + 2)) s0 = Some sl" "pc sl = 16"
      "returned_to sl = None" "regs sl sp = ?dst" "regs sl rfp = regs s0 sp - 16"
      "calls sl = calls s0"
      "\<forall>x. \<not> in_region ?dst (8 * ?w) x \<longrightarrow> mem sl x = ?m1 x"
    by blast
  note lc = adapter_loop_code [OF gen]
  from adapter_call_code [OF gen args] obtain pre blk rest where
    l17: "length pre = 17" and
    code: "prog = pre @ blk
           @ [ Ldr rscratch2 (BaseOff r10 (arguments_next_pc layout)),
               Blr rscratch2,
               Ldr r10 (BaseOff rfp (- 16)) ]
           @ map (\<lambda>i. Str (integer_return_registers abi ! i)
                 (BaseOff r10 (returns_integer layout + int i * 8)))
               [0 ..< length (integer_return_registers abi)]
           @ rest"
    and lblk: "length blk = length (vector_argument_registers abi)
                         + length (integer_argument_registers abi)"
    and kinds: "\<forall>i\<in>set blk. (\<exists>q b off. i = Ldrq q (BaseOff b off))
                 \<or> (\<exists>r b off. i = Ldr r (BaseOff b off) \<and> r \<notin> {rfp, sp})"
    by blast
  have at: "prog ! (17 + j) = (blk
           @ [ Ldr rscratch2 (BaseOff r10 (arguments_next_pc layout)),
               Blr rscratch2,
               Ldr r10 (BaseOff rfp (- 16)) ]
           @ map (\<lambda>i. Str (integer_return_registers abi ! i)
                 (BaseOff r10 (returns_integer layout + int i * 8)))
               [0 ..< length (integer_return_registers abi)]
           @ rest) ! j" for j
    using l17 by (subst code) (simp add: nth_append)
  have len: "17 + length blk + 3 \<le> length prog"
    by (subst code) (simp add: l17)
  \<comment> \<open>the label behind the loop\<close>
  define s17 where "s17 = advance sl"
  have r17: "run vm ext prog 1 sl = Some s17"
    using sl(2,3) lc(7,10) by (simp add: run_one step_Bind s17_def)
  have s17: "pc s17 = 17" "returned_to s17 = None" "mem s17 = mem sl" "calls s17 = calls s0"
      "regs s17 rfp = regs s0 sp - 16" "regs s17 sp = ?dst"
    using sl by (simp_all add: s17_def advance_def)
  \<comment> \<open>the argument registers\<close>
  have "\<forall>j<length blk. prog ! (pc s17 + j) = blk ! j"
    by (simp add: s17(1) at nth_append)
  from run_loads [of s17 blk prog "{rfp, sp}" vm ext, OF s17(2) _ this kinds] s17 len
  obtain sc where sc: "run vm ext prog (length blk) s17 = Some sc" "pc sc = 17 + length blk"
      "returned_to sc = None" "mem sc = mem sl" "calls sc = calls s0"
      "regs sc rfp = regs s0 sp - 16" "regs sc sp = ?dst"
    by auto
  \<comment> \<open>the entry address, the call and the reload\<close>
  define sd where "sd = advance (effect vm (Ldr rscratch2 (BaseOff r10 (arguments_next_pc layout))) sc)"
  have rd: "run vm ext prog 1 sc = Some sd"
    using sc(2,3) len
    by (simp add: run_one step_falls_through at [of "length blk", simplified] sd_def del: effect.simps)
  have sd: "pc sd = 17 + length blk + 1" "returned_to sd = None" "mem sd = mem sl"
      "calls sd = calls s0" "regs sd rfp = regs s0 sp - 16" "regs sd sp = ?dst"
    using sc by (simp_all add: sd_def advance_def set_reg_def)
  define se where "se = call_extern ext (regs sd rscratch2) sd"
  have pf: "preserves_frame (ext (regs sd rscratch2))" using callee by blast
  have "prog ! (17 + length blk + 1) = Blr rscratch2"
    using at [of "length blk + 1"] by (simp add: nth_append)
  then have re: "run vm ext prog 1 sd = Some se"
    using sd(1,2) len by (simp add: run_one step_Blr se_def)
  note cf = call_extern_frame [where ext = ext and t = "regs sd rscratch2" and s = sd, OF pf,
      folded se_def]
  have se: "pc se = 17 + length blk + 2" "returned_to se = None"
      "regs se rfp = regs s0 sp - 16" "length (calls se) = Suc (length (calls s0))"
    using sd by (simp_all add: cf)
  have mem_e: "mem se (?slot + of_nat j) = ?m1 (?slot + of_nat j)" if "j < 8" for j
  proof -
    have "in_region (regs sd sp) (unat (regs sd rfp + 16 - regs sd sp)) (?slot + of_nat j)"
      using that by (simp only: sd(5,6) frame_len in_region_def slot_off [OF that])
    then have "mem se (?slot + of_nat j) = mem sd (?slot + of_nat j)" by (rule cf(3))
    moreover have "\<not> in_region ?dst (8 * ?w) (?slot + of_nat j)"
      using w8 by (simp only: in_region_def slot_off [OF that])
    ultimately show ?thesis using sl(7) sd(3) by simp
  qed
  define sf where "sf = advance (effect vm (Ldr r10 (BaseOff rfp (- 16))) se)"
  have "prog ! (17 + length blk + 2) = Ldr r10 (BaseOff rfp (- 16))"
    using at [of "length blk + 2"] by (simp add: nth_append)
  then have rf: "run vm ext prog 1 se = Some sf"
    using se(1,2) len by (simp add: run_one step_falls_through sf_def del: effect.simps)
  have "load64 (mem se) ?slot = load64 ?m1 ?slot"
    unfolding load64_def by (rule load_le_cong) (rule mem_e)
  also have "\<dots> = regs s0 c_rarg0"
    by (simp add: load64_def store64_def load_store_le_same)
  finally have r10: "regs sf r10 = regs s0 c_rarg0"
    using se(3) by (simp add: sf_def advance_def set_reg_def)
  have sf: "pc sf = 20 + length blk" "length (calls sf) = Suc (length (calls s0))"
    using se by (simp_all add: sf_def advance_def set_reg_def)
  have total: "run vm ext prog (10 + (6 * ?w + 2) + 1 + length blk + 1 + 1 + 1) s0 = Some sf"
    by (intro run_trans [OF _ rf] run_trans [OF _ re] run_trans [OF _ rd] run_trans [OF _ sc(1)]
        run_trans [OF sl(1) r17])
  have stores: "\<forall>i<length (integer_return_registers abi).
            prog ! (pc sf + i) = Str (integer_return_registers abi ! i)
                                  (BaseOff r10 (returns_integer layout + int i * 8))"
  proof (intro allI impI)
    fix i assume i: "i < length (integer_return_registers abi)"
    have "prog ! (17 + (length blk + 3 + i)) = Str (integer_return_registers abi ! i)
                                  (BaseOff r10 (returns_integer layout + int i * 8))"
      using i by (subst at) (simp add: nth_append)
    then show "prog ! (pc sf + i) = Str (integer_return_registers abi ! i)
                                  (BaseOff r10 (returns_integer layout + int i * 8))"
      by (simp add: sf(1) add.assoc)
  qed
  have p2: "prog ! 2 = Str r10 (PreIdx sp (- 16))"
    by (subst adapter_code [OF gen]) simp
  have pm: "prog ! (pc sf - 2) = Blr rscratch2" "prog ! (pc sf - 1) = Ldr r10 (BaseOff rfp (- 16))"
    using at [of "length blk + 1"] at [of "length blk + 2"]
    by (simp_all add: sf(1) nth_append)
  show ?thesis
    apply (rule exI [where x = "10 + (6 * ?w + 2) + 1 + length blk + 1 + 1 + 1"])
    apply (rule exI [where x = sf])
    using total r10 sf stores p2 pm lblk
    apply simp
    done
qed


lemma example_extern_preserves_frame: "preserves_frame (example_extern t)"
  by (simp add: preserves_frame_def example_extern_def)

theorem C9_context_address_persisted_witness:
  "\<exists>n s. run example_vm example_extern
            (projr (ProgrammableInvoker_generate example_abi example_layout)) n
            (example_adapter_state 17) = Some s
     \<and> pc s = 23 \<and> length (calls s) = 1 \<and> regs s r10 = 0x1000"
proof -
  let ?prog = "projr (ProgrammableInvoker_generate example_abi example_layout)"
  let ?s0 = "example_adapter_state 17"
  have gen: "ProgrammableInvoker_generate example_abi example_layout = Inr ?prog"
    using adapter_generates by simp
  have entry: "pc ?s0 = 0" "returned_to ?s0 = None"
    by (simp_all add: example_adapter_state_def)
  have r: "regs ?s0 sp = 0x8000" "regs ?s0 c_rarg0 = 0x1000" "calls ?s0 = []"
    by (simp_all add: example_adapter_state_def)
  have l: "stack_args_bytes example_layout = 0" "stack_args example_layout = 8"
    by (simp_all add: example_layout_def)
  have cnt: "load64 (mem ?s0) 0x1000 = 17" by (rule example_load_count)
  have sepa: "disjoint_regions (regs ?s0 sp - 32) 32
      (regs ?s0 c_rarg0 + word_of_int (stack_args_bytes example_layout)) 8"
    by (simp add: r l disjoint_regions_def separated_def)
  have sepb: "disjoint_regions (regs ?s0 sp - 32) 32
      (regs ?s0 c_rarg0 + word_of_int (stack_args example_layout)) 8"
    by (simp add: r l disjoint_regions_def separated_def)
  have pow: "stack_alignment_bytes example_abi = 2 ^ 4"
    by (simp add: example_abi_def)
  have fit: "uint (load64 (mem ?s0) (regs ?s0 c_rarg0 + word_of_int (stack_args_bytes example_layout)))
                + 2 ^ 4 + 32 \<le> 2 ^ 64"
    by (simp add: r l cnt)
  have args: "\<forall>r\<in>set (integer_argument_registers example_abi). r \<notin> {rfp, sp}"
    by (simp add: example_abi_def)
  have callee: "\<forall>t. preserves_frame (example_extern t)"
    by (simp add: example_extern_preserves_frame)
  from C9_context_address_persisted [OF gen entry sepa sepb pow fit args callee, of example_vm]
  show ?thesis
    by (simp add: r example_abi_def) blast
qed

section \<open>Running the slow paths\<close>


lemma no_bind_spill_code: "Bind l \<notin> set (spill_code sf vs off)"
  by (induction vs arbitrary: off) (auto split: VMReg.splits)

lemma no_bind_unpack: "unpack_native_results bt = Inr u \<Longrightarrow> Bind l \<notin> set u"
  by (auto simp: unpack_native_results_def split: BasicType.splits)

text \<open>The shapes of the spill code for the output registers the constructor accepts.\<close>

lemma spill_shapes:
  assumes "length outs \<le> 1 \<or> (length outs = 2 \<and> \<not> is_valid (outs ! 1))"
  shows "(spill_code True outs 0 = [] \<and> spill_code False outs 0 = []
           \<and> (\<forall>r. VMGpr r \<notin> set outs) \<and> (\<forall>q. VMFpr q \<notin> set outs))
       \<or> (\<exists>r. spill_code True outs 0 = [Str r (BaseOff sp 0)]
              \<and> spill_code False outs 0 = [Ldr r (BaseOff sp 0)]
              \<and> (\<forall>r'. VMGpr r' \<in> set outs \<longleftrightarrow> r' = r) \<and> (\<forall>q. VMFpr q \<notin> set outs)
              \<and> spill_size_bytes (RegSpiller_new outs) = 8)
       \<or> (\<exists>q. spill_code True outs 0 = [Strq q (BaseOff sp 0)]
              \<and> spill_code False outs 0 = [Ldrq q (BaseOff sp 0)]
              \<and> (\<forall>q'. VMFpr q' \<in> set outs \<longleftrightarrow> q' = q) \<and> (\<forall>r. VMGpr r \<notin> set outs)
              \<and> spill_size_bytes (RegSpiller_new outs) = 16)"
proof -
  from assms consider "outs = []" | v where "outs = [v]" | v where "outs = [v, VMBad]"
    by (cases outs; cases "tl outs"; cases "tl (tl outs)") (auto simp: is_valid_def)
  then show ?thesis
  proof cases
    case 1
    then show ?thesis by simp
  next
    case (2 v)
    then show ?thesis by (cases v) (auto simp: RegSpiller_new_def pd_reg_size_def)
  next
    case (3 v)
    then show ?thesis by (cases v) (auto simp: RegSpiller_new_def pd_reg_size_def)
  qed
qed

lemma make_native_invoker_Inr:
  assumes "make_native_invoker vm start sg n bt shadow ins outs = Inr res"
  shows "length outs \<le> 1 \<or> (length outs = 2 \<and> \<not> is_valid (outs ! 1))"
    and "\<exists>g. NativeInvokerGenerator_generate vm start g = Inr res \<and> m_output_registers g = outs
            \<and> m_input_registers g = ins \<and> m_ret_bt g = bt \<and> m_num_args g = n
            \<and> m_signature g = sg"
  using assms
  by (auto simp: make_native_invoker_def NativeInvokerGenerator_new_def split: sum.splits if_splits)

text \<open>The emitted code as the part before the return transition, the rest of the main
  path, and the two slow paths.\<close>

lemma generate_layout:
  assumes "NativeInvokerGenerator_generate vm start g = Inr res"
  shows "\<exists>front.
      (\<forall>i\<in>set front. \<forall>l. i \<noteq> Bind l)
    \<and> code res = front
           @ [ Mov_ri r9 (thread_in_native_trans vm),
               Strw r9 (BaseOff rthread (thread_state_offset vm)),
               Membar 15,
               VerifySveVectorLength r9,
               SafepointPoll ''L_safepoint_poll_slow_path'' True True False r9,
               Ldrw r9 (BaseOff rthread (suspend_flags_offset vm)),
               Cbnzw r9 ''L_safepoint_poll_slow_path'',
               Bind ''L_after_safepoint_poll'',
               Mov_ri r9 (thread_in_Java vm),
               Lea r10 (BaseOff rthread (thread_state_offset vm)),
               Stlrw r9 r10,
               Ldrb r9 (BaseOff rthread (stack_guard_state_offset vm)),
               Cmpw r9 (stack_guard_yellow_reserved_disabled vm),
               Br EQ ''L_reguard'',
               Bind ''L_after_reguard'',
               ResetLastJavaFrame True,
               Leave,
               Ret lr,
               Bind ''L_safepoint_poll_slow_path'' ]
           @ spill_code True (m_output_registers g) 0
           @ [ Mov_rr c_rarg0 rthread,
               Lea r9 (RuntimeAddress (check_special_condition_for_native_trans vm)),
               Blr r9 ]
           @ spill_code False (m_output_registers g) 0
           @ [ B ''L_after_safepoint_poll'',
               Bind ''L_reguard'' ]
           @ spill_code True (m_output_registers g) 0
           @ [ RtCall (reguard_yellow_pages vm) r9 ]
           @ spill_code False (m_output_registers g) 0
           @ [ B ''L_after_reguard'' ]"
proof (rule generate_Inr [OF assms])
  fix sh :: ArgumentShuffle and unpack
  assume u: "unpack_native_results (m_ret_bt g) = Inr unpack"
    and c: "code res =
           [ Enter,
             Sub_rri sp rfp (ucast (push_bit LogBytesPerInt ((word_of_int (g_framesize res) :: 32 word) - 4))),
             SetLastJavaFrame sp rfp (start + 2) r9,
             Mov_ri r9 (thread_in_native vm),
             Lea r10 (BaseOff rthread (thread_state_offset vm)),
             Stlrw r9 r10 ]
           @ map (\<lambda>m. MoveLoc (fst m) (snd m)) (moves sh)
           @ [ Blr r9 ]
           @ unpack
           @ [ Mov_ri r9 (thread_in_native_trans vm),
               Strw r9 (BaseOff rthread (thread_state_offset vm)),
               Membar 15,
               VerifySveVectorLength r9,
               SafepointPoll ''L_safepoint_poll_slow_path'' True True False r9,
               Ldrw r9 (BaseOff rthread (suspend_flags_offset vm)),
               Cbnzw r9 ''L_safepoint_poll_slow_path'',
               Bind ''L_after_safepoint_poll'',
               Mov_ri r9 (thread_in_Java vm),
               Lea r10 (BaseOff rthread (thread_state_offset vm)),
               Stlrw r9 r10,
               Ldrb r9 (BaseOff rthread (stack_guard_state_offset vm)),
               Cmpw r9 (stack_guard_yellow_reserved_disabled vm),
               Br EQ ''L_reguard'',
               Bind ''L_after_reguard'',
               ResetLastJavaFrame True,
               Leave,
               Ret lr,
               Bind ''L_safepoint_poll_slow_path'' ]
           @ spill_code True (m_output_registers g) 0
           @ [ Mov_rr c_rarg0 rthread,
               Lea r9 (RuntimeAddress (check_special_condition_for_native_trans vm)),
               Blr r9 ]
           @ spill_code False (m_output_registers g) 0
           @ [ B ''L_after_safepoint_poll'',
               Bind ''L_reguard'' ]
           @ spill_code True (m_output_registers g) 0
           @ [ RtCall (reguard_yellow_pages vm) r9 ]
           @ spill_code False (m_output_registers g) 0
           @ [ B ''L_after_reguard'' ]"
  show ?thesis
    apply (rule exI [where x = "[ Enter,
             Sub_rri sp rfp (ucast (push_bit LogBytesPerInt ((word_of_int (g_framesize res) :: 32 word) - 4))),
             SetLastJavaFrame sp rfp (start + 2) r9,
             Mov_ri r9 (thread_in_native vm),
             Lea r10 (BaseOff rthread (thread_state_offset vm)),
             Stlrw r9 r10 ]
           @ map (\<lambda>m. MoveLoc (fst m) (snd m)) (moves sh)
           @ [ Blr r9 ]
           @ unpack"])
    using c no_bind_unpack [OF u] apply auto
    done
qed


lemma call_extern_load:
  assumes "preserves_frame (ext t)" "n \<le> unat (regs s rfp + 16 - regs s sp)"
  shows "load_le (mem (call_extern ext t s)) (regs s sp) n = (load_le (mem s) (regs s sp) n :: 'a::len word)"
proof (rule load_le_cong)
  fix j assume j: "j < n"
  have "unat (regs s rfp + 16 - regs s sp) < 2 ^ 64"
    using unsigned_less [of "regs s rfp + 16 - regs s sp", where 'a = nat] by simp
  with j assms(2) have "in_region (regs s sp) (unat (regs s rfp + 16 - regs s sp)) (regs s sp + of_nat j)"
    by (simp add: in_region_offset)
  then show "mem (call_extern ext t s) (regs s sp + of_nat j) = mem s (regs s sp + of_nat j)"
    by (rule call_extern_frame(3) [where ext = ext and t = t, OF assms(1)])
qed

lemma ea_pc_upd: "ea ad (s\<lparr>pc := k\<rparr>) = (fst (ea ad s), (snd (ea ad s))\<lparr>pc := k\<rparr>)"
  by (cases ad) (simp_all add: set_reg_def)

lemma ea_fields:
  "pc (snd (ea ad s)) = pc s" "returned_to (snd (ea ad s)) = returned_to s"
  "calls (snd (ea ad s)) = calls s" "mem (snd (ea ad s)) = mem s"
  by (cases ad; simp add: set_reg_def)+

lemma loc_pc_upd:
  "get_loc (s\<lparr>pc := k\<rparr>) v = get_loc s v"
  "set_loc v x (s\<lparr>pc := k\<rparr>) = (set_loc v x s)\<lparr>pc := k\<rparr>"
  by (cases v; simp add: set_reg_def set_vreg_def set_mem_def)+

lemma set_loc_fields:
  "pc (set_loc v x s) = pc s" "returned_to (set_loc v x s) = returned_to s"
  "calls (set_loc v x s) = calls s"
  by (cases v; simp add: set_reg_def set_vreg_def set_mem_def)+

lemma effect_pc_upd: "effect vm i (s\<lparr>pc := k\<rparr>) = (effect vm i s)\<lparr>pc := k\<rparr>"
  by (cases i)
    (simp_all add: ea_pc_upd loc_pc_upd split_def Let_def set_reg_def set_mem_def set_vreg_def)

lemma effect_fields:
  "pc (effect vm i s) = pc s" "returned_to (effect vm i s) = returned_to s"
  "calls (effect vm i s) = calls s"
  by (cases i; simp add: ea_fields set_loc_fields split_def Let_def set_reg_def set_mem_def
      set_vreg_def)+

lemma run_block:
  fixes s :: machine
  assumes "returned_to s = None" "take (length blk) (drop (pc s) prog) = blk"
    "list_all falls_through blk"
  shows "run vm ext prog (length blk) s
       = Some ((fold (effect vm) blk s)\<lparr>pc := pc s + length blk\<rparr>)"
  using assms
proof (induction blk arbitrary: s)
  case Nil
  then show ?case by simp
next
  case (Cons i blk)
  from Cons.prems(2) have lt: "pc s < length prog"
    by (metis drop_all length_greater_0_conv list.distinct(1) not_le take_Nil take_eq_Nil)
  from Cons.prems(2) have "hd (drop (pc s) prog) = i"
    by (metis hd_take length_greater_0_conv list.distinct(1) list.sel(1))
  with lt have i: "prog ! pc s = i" by (simp add: hd_drop_conv_nth)
  have tl: "take (length blk) (drop (pc s + 1) prog) = blk"
    using Cons.prems(2) lt
    by (metis Cons_nth_drop_Suc Suc_eq_plus1 length_Cons list.inject take_Suc_Cons)
  let ?s1 = "advance (effect vm i s)"
  have st: "step vm ext prog s = Some ?s1"
    using Cons.prems(1,3) lt i by (intro step_falls_through) auto
  have s1: "returned_to ?s1 = None" "pc ?s1 = pc s + 1"
    using Cons.prems(1) by (simp_all add: advance_def effect_fields)
  from Cons.IH [of ?s1] s1 tl Cons.prems(3)
  have "run vm ext prog (length blk) ?s1
       = Some ((fold (effect vm) blk ?s1)\<lparr>pc := pc ?s1 + length blk\<rparr>)"
    by simp
  moreover have "fold (effect vm) blk (s2\<lparr>pc := k\<rparr>) = (fold (effect vm) blk s2)\<lparr>pc := k\<rparr>"
    for s2 :: machine and k
    by (induction blk arbitrary: s2) (simp_all add: effect_pc_upd)
  ultimately show ?case
    using st by (simp add: run.simps(2) advance_def s1 effect_fields)
qed


lemma nth_of_drop: "drop p prog = l \<Longrightarrow> j < length l \<Longrightarrow> prog ! (p + j) = l ! j \<and> p + j < length prog"
  by (metis add.commute add_diff_cancel_left' length_drop less_diff_conv nat_le_linear
      drop_all list.size(3) not_less_zero nth_drop)

lemma run1_at_Blr:
  fixes s :: machine
  assumes "drop (pc s) prog = Blr r # rest" "returned_to s = None"
  shows "run vm ext prog 1 s = Some (call_extern ext (regs s r) s)"
  using nth_of_drop [OF assms(1), of 0] assms(2) by (simp add: run_one step.simps)

lemma run1_at_RtCall:
  fixes s :: machine
  assumes "drop (pc s) prog = RtCall dest tmp # rest" "returned_to s = None"
  shows "run vm ext prog 1 s = Some (call_extern ext dest (set_reg tmp dest s))"
  using nth_of_drop [OF assms(1), of 0] assms(2) by (simp add: run_one step.simps)

lemma run1_at_B:
  fixes s :: machine
  assumes "drop (pc s) prog = B l # rest" "returned_to s = None" "label_pos prog l = Some q"
  shows "run vm ext prog 1 s = Some (s\<lparr>pc := q\<rparr>)"
  using nth_of_drop [OF assms(1), of 0] assms(2,3) by (simp add: run_one step.simps jump_def)

lemma fold_effect_fields:
  "returned_to (fold (effect vm) blk s) = returned_to s" "calls (fold (effect vm) blk s) = calls s"
  by (induction blk arbitrary: s; simp add: effect_fields)+

lemma fold_effect_pc_upd:
  "fold (effect vm) blk (s\<lparr>pc := k\<rparr>) = (fold (effect vm) blk s)\<lparr>pc := k\<rparr>"
  by (induction blk arbitrary: s) (simp_all add: effect_pc_upd)

text \<open>A block, a call, a block and a branch.\<close>

lemma detour_run:
  fixes s :: machine
  assumes d: "drop (pc s) prog = pre @ c # post @ B l1 # rest"
    and c: "c = Blr r \<and> tgt = regs st r \<and> sc = st \<or> c = RtCall tgt tmp \<and> sc = set_reg tmp tgt st"
    and st: "st = (fold (effect vm) pre s)\<lparr>pc := pc s + length pre\<rparr>"
    and ft: "list_all falls_through pre" "list_all falls_through post"
    and s: "returned_to s = None" and l: "label_pos prog l1 = Some q"
  shows "run vm ext prog (length pre + 1 + length post + 1) s
       = Some ((fold (effect vm) post
                  (call_extern ext tgt sc))\<lparr>pc := q\<rparr>)"
proof -
  let ?s1 = "(fold (effect vm) pre s)\<lparr>pc := pc s + length pre\<rparr>"
  have "take (length pre) (drop (pc s) prog) = pre" by (simp add: d)
  from run_block [OF s this ft(1), of vm ext]
  have r1: "run vm ext prog (length pre) s = Some ?s1" .
  have d1: "drop (pc ?s1) prog = c # post @ B l1 # rest"
    using d by (simp add: add.commute [of "pc s"] drop_drop [symmetric])
  have rt1: "returned_to ?s1 = None" by (simp add: fold_effect_fields s)
  let ?s2 = "call_extern ext tgt sc"
  have r2: "run vm ext prog 1 ?s1 = Some ?s2"
    using c
  proof
    assume a: "c = Blr r \<and> tgt = regs st r \<and> sc = st"
    with d1 have "drop (pc ?s1) prog = Blr r # post @ B l1 # rest" by simp
    from run1_at_Blr [OF this rt1, of vm ext] a show ?thesis by (simp add: st)
  next
    assume a: "c = RtCall tgt tmp \<and> sc = set_reg tmp tgt st"
    with d1 have "drop (pc ?s1) prog = RtCall tgt tmp # post @ B l1 # rest" by simp
    from run1_at_RtCall [OF this rt1, of vm ext] a show ?thesis by (simp add: st)
  qed
  have pc2: "pc ?s2 = pc s + length pre + 1" "returned_to ?s2 = None"
    using c by (auto simp add: call_extern_def Let_def st set_reg_def fold_effect_fields s)
  have d2: "drop (pc ?s2) prog = post @ B l1 # rest"
    using d1 by (simp only: pc2(1)) (metis add.commute drop_drop drop_Suc_Cons drop0 One_nat_def select_convs(5) surjective update_convs(5))
  let ?s3 = "(fold (effect vm) post ?s2)\<lparr>pc := pc ?s2 + length post\<rparr>"
  have "take (length post) (drop (pc ?s2) prog) = post" by (simp only: d2) simp
  from run_block [OF pc2(2) this ft(2), of vm ext]
  have r3: "run vm ext prog (length post) ?s2 = Some ?s3" .
  have d3: "drop (pc ?s3) prog = B l1 # rest"
    using d2 by (simp add: add.commute [of "pc ?s2"] drop_drop [symmetric])
  have "returned_to ?s3 = None" by (simp add: fold_effect_fields pc2(2))
  from run1_at_B [OF d3 this l, of vm ext]
  have r4: "run vm ext prog 1 ?s3 = Some (?s3\<lparr>pc := q\<rparr>)" .
  have "run vm ext prog (length pre + 1 + length post + 1) s = Some (?s3\<lparr>pc := q\<rparr>)"
    by (intro run_trans [OF _ r4] run_trans [OF _ r3] run_trans [OF r1 r2])
  then show ?thesis by simp
qed


lemma load_le_call_extern:
  assumes "preserves_frame (ext t)" "n \<le> unat (regs s rfp + 16 - regs s sp)" "a = regs s sp"
  shows "load_le (mem (call_extern ext t s)) a n = (load_le (mem s) a n :: 'a::len word)"
  using call_extern_load [where ext = ext and t = t and s = s, OF assms(1,2)] assms(3) by simp

text \<open>A slow path around one saved general register.\<close>

lemma slow_path_gpr:
  fixes s :: machine
  assumes d: "drop (pc s) prog
               = [Bind l0, Str r (BaseOff sp 0)] @ mid @ Ldr r (BaseOff sp 0) # B l1 # rest"
    and mid: "mid = [Mov_rr c_rarg0 rthread, Lea r9 (RuntimeAddress a), Blr r9] \<and> arg = regs s rthread
            \<or> mid = [RtCall a r9] \<and> arg = regs s c_rarg0"
    and l: "label_pos prog l1 = Some q"
    and ok: "returned_to s = None"
    and callee: "\<forall>t. preserves_frame (ext t)"
    and frame: "8 \<le> unat (regs s rfp + 16 - regs s sp)"
  shows "\<exists>k s'. run vm ext prog k s = Some s' \<and> pc s' = q \<and> calls s' = calls s @ [(a, arg)]
      \<and> regs s' r = regs s r"
proof -
  have pf: "preserves_frame (ext a)" using callee by simp
  from mid show ?thesis
  proof
    assume m: "mid = [Mov_rr c_rarg0 rthread, Lea r9 (RuntimeAddress a), Blr r9] \<and> arg = regs s rthread"
    define pre where "pre = [Bind l0, Str r (BaseOff sp 0), Mov_rr c_rarg0 rthread, Lea r9 (RuntimeAddress a)]"
    define st where "st = (fold (effect vm) pre s)\<lparr>pc := pc s + length pre\<rparr>"
    have d': "drop (pc s) prog = pre @ Blr r9 # [Ldr r (BaseOff sp 0)] @ B l1 # rest"
      using d m by (simp add: pre_def)
    have st: "regs st sp = regs s sp" "regs st rfp = regs s rfp" "regs st c_rarg0 = regs s rthread"
      "regs st r9 = a" "mem st = store64 (mem s) (regs s sp) (regs s r)" "calls st = calls s"
      by (simp_all add: st_def pre_def set_reg_def set_mem_def)
    have run: "run vm ext prog (length pre + 1 + length [Ldr r (BaseOff sp 0)] + 1) s
       = Some ((fold (effect vm) [Ldr r (BaseOff sp 0)] (call_extern ext a st))\<lparr>pc := q\<rparr>)"
      by (rule detour_run [OF d' _ st_def _ _ ok l, where r = r9]) (simp_all add: st pre_def)
    have fr: "8 \<le> unat (regs st rfp + 16 - regs st sp)" using frame by (simp add: st)
    have "load64 (mem (call_extern ext a st)) (regs s sp) = load64 (mem st) (regs s sp)"
      unfolding load64_def by (rule load_le_call_extern [where ext = ext and t = a and s = st, OF pf fr]) (simp add: st)
    also have "\<dots> = regs s r" by (simp add: st load64_def store64_def load_store_le_same)
    finally have v: "load64 (mem (call_extern ext a st)) (regs s sp) = regs s r" .
    show ?thesis
      apply (rule exI, rule exI, rule conjI, rule run)
      apply (simp add: set_reg_def call_extern_frame [where ext = ext and t = a, OF pf] st v m)
      done
  next
    assume m: "mid = [RtCall a r9] \<and> arg = regs s c_rarg0"
    define pre where "pre = [Bind l0, Str r (BaseOff sp 0)]"
    define st where "st = (fold (effect vm) pre s)\<lparr>pc := pc s + length pre\<rparr>"
    define sc where "sc = set_reg r9 a st"
    have d': "drop (pc s) prog = pre @ RtCall a r9 # [Ldr r (BaseOff sp 0)] @ B l1 # rest"
      using d m by (simp add: pre_def)
    have st: "regs sc sp = regs s sp" "regs sc rfp = regs s rfp" "regs sc c_rarg0 = regs s c_rarg0"
      "mem sc = store64 (mem s) (regs s sp) (regs s r)" "calls sc = calls s"
      by (simp_all add: sc_def st_def pre_def set_reg_def set_mem_def)
    have run: "run vm ext prog (length pre + 1 + length [Ldr r (BaseOff sp 0)] + 1) s
       = Some ((fold (effect vm) [Ldr r (BaseOff sp 0)] (call_extern ext a sc))\<lparr>pc := q\<rparr>)"
      by (rule detour_run [OF d' _ st_def _ _ ok l, where tmp = r9]) (simp_all add: sc_def pre_def)
    have fr: "8 \<le> unat (regs sc rfp + 16 - regs sc sp)" using frame by (simp add: st)
    have "load64 (mem (call_extern ext a sc)) (regs s sp) = load64 (mem sc) (regs s sp)"
      unfolding load64_def by (rule load_le_call_extern [where ext = ext and t = a and s = sc, OF pf fr]) (simp add: st)
    also have "\<dots> = regs s r" by (simp add: st load64_def store64_def load_store_le_same)
    finally have v: "load64 (mem (call_extern ext a sc)) (regs s sp) = regs s r" .
    show ?thesis
      apply (rule exI, rule exI, rule conjI, rule run)
      apply (simp add: set_reg_def call_extern_frame [where ext = ext and t = a, OF pf] st v m)
      done
  qed
qed

text \<open>A slow path around one saved vector register.\<close>

lemma slow_path_fpr:
  fixes s :: machine
  assumes d: "drop (pc s) prog
               = [Bind l0, Strq r (BaseOff sp 0)] @ mid @ Ldrq r (BaseOff sp 0) # B l1 # rest"
    and mid: "mid = [Mov_rr c_rarg0 rthread, Lea r9 (RuntimeAddress a), Blr r9] \<and> arg = regs s rthread
            \<or> mid = [RtCall a r9] \<and> arg = regs s c_rarg0"
    and l: "label_pos prog l1 = Some q"
    and ok: "returned_to s = None"
    and callee: "\<forall>t. preserves_frame (ext t)"
    and frame: "16 \<le> unat (regs s rfp + 16 - regs s sp)"
  shows "\<exists>k s'. run vm ext prog k s = Some s' \<and> pc s' = q \<and> calls s' = calls s @ [(a, arg)]
      \<and> vregs s' r = vregs s r"
proof -
  have pf: "preserves_frame (ext a)" using callee by simp
  from mid show ?thesis
  proof
    assume m: "mid = [Mov_rr c_rarg0 rthread, Lea r9 (RuntimeAddress a), Blr r9] \<and> arg = regs s rthread"
    define pre where "pre = [Bind l0, Strq r (BaseOff sp 0), Mov_rr c_rarg0 rthread, Lea r9 (RuntimeAddress a)]"
    define st where "st = (fold (effect vm) pre s)\<lparr>pc := pc s + length pre\<rparr>"
    have d': "drop (pc s) prog = pre @ Blr r9 # [Ldrq r (BaseOff sp 0)] @ B l1 # rest"
      using d m by (simp add: pre_def)
    have st: "regs st sp = regs s sp" "regs st rfp = regs s rfp" "regs st c_rarg0 = regs s rthread"
      "regs st r9 = a" "mem st = store128 (mem s) (regs s sp) (vregs s r)" "calls st = calls s"
      by (simp_all add: st_def pre_def set_reg_def set_mem_def)
    have run: "run vm ext prog (length pre + 1 + length [Ldrq r (BaseOff sp 0)] + 1) s
       = Some ((fold (effect vm) [Ldrq r (BaseOff sp 0)] (call_extern ext a st))\<lparr>pc := q\<rparr>)"
      by (rule detour_run [OF d' _ st_def _ _ ok l, where r = r9]) (simp_all add: st pre_def)
    have fr: "16 \<le> unat (regs st rfp + 16 - regs st sp)" using frame by (simp add: st)
    have "load128 (mem (call_extern ext a st)) (regs s sp) = load128 (mem st) (regs s sp)"
      unfolding load128_def by (rule load_le_call_extern [where ext = ext and t = a and s = st, OF pf fr]) (simp add: st)
    also have "\<dots> = vregs s r" by (simp add: st load128_def store128_def load_store_le_same)
    finally have v: "load128 (mem (call_extern ext a st)) (regs s sp) = vregs s r" .
    show ?thesis
      apply (rule exI, rule exI, rule conjI, rule run)
      apply (simp add: set_reg_def set_vreg_def call_extern_frame [where ext = ext and t = a, OF pf] st v m)
      done
  next
    assume m: "mid = [RtCall a r9] \<and> arg = regs s c_rarg0"
    define pre where "pre = [Bind l0, Strq r (BaseOff sp 0)]"
    define st where "st = (fold (effect vm) pre s)\<lparr>pc := pc s + length pre\<rparr>"
    define sc where "sc = set_reg r9 a st"
    have d': "drop (pc s) prog = pre @ RtCall a r9 # [Ldrq r (BaseOff sp 0)] @ B l1 # rest"
      using d m by (simp add: pre_def)
    have st: "regs sc sp = regs s sp" "regs sc rfp = regs s rfp" "regs sc c_rarg0 = regs s c_rarg0"
      "mem sc = store128 (mem s) (regs s sp) (vregs s r)" "calls sc = calls s"
      by (simp_all add: sc_def st_def pre_def set_reg_def set_mem_def)
    have run: "run vm ext prog (length pre + 1 + length [Ldrq r (BaseOff sp 0)] + 1) s
       = Some ((fold (effect vm) [Ldrq r (BaseOff sp 0)] (call_extern ext a sc))\<lparr>pc := q\<rparr>)"
      by (rule detour_run [OF d' _ st_def _ _ ok l, where tmp = r9]) (simp_all add: sc_def pre_def)
    have fr: "16 \<le> unat (regs sc rfp + 16 - regs sc sp)" using frame by (simp add: st)
    have "load128 (mem (call_extern ext a sc)) (regs s sp) = load128 (mem sc) (regs s sp)"
      unfolding load128_def by (rule load_le_call_extern [where ext = ext and t = a and s = sc, OF pf fr]) (simp add: st)
    also have "\<dots> = vregs s r" by (simp add: st load128_def store128_def load_store_le_same)
    finally have v: "load128 (mem (call_extern ext a sc)) (regs s sp) = vregs s r" .
    show ?thesis
      apply (rule exI, rule exI, rule conjI, rule run)
      apply (simp add: set_reg_def set_vreg_def call_extern_frame [where ext = ext and t = a, OF pf] st v m)
      done
  qed
qed

text \<open>A slow path with nothing to save.\<close>

lemma slow_path_none:
  fixes s :: machine
  assumes d: "drop (pc s) prog = [Bind l0] @ mid @ B l1 # rest"
    and mid: "mid = [Mov_rr c_rarg0 rthread, Lea r9 (RuntimeAddress a), Blr r9] \<and> arg = regs s rthread
            \<or> mid = [RtCall a r9] \<and> arg = regs s c_rarg0"
    and l: "label_pos prog l1 = Some q"
    and ok: "returned_to s = None"
    and callee: "\<forall>t. preserves_frame (ext t)"
  shows "\<exists>k s'. run vm ext prog k s = Some s' \<and> pc s' = q \<and> calls s' = calls s @ [(a, arg)]"
proof -
  have pf: "preserves_frame (ext a)" using callee by simp
  from mid show ?thesis
  proof
    assume m: "mid = [Mov_rr c_rarg0 rthread, Lea r9 (RuntimeAddress a), Blr r9] \<and> arg = regs s rthread"
    define pre where "pre = [Bind l0, Mov_rr c_rarg0 rthread, Lea r9 (RuntimeAddress a)]"
    define st where "st = (fold (effect vm) pre s)\<lparr>pc := pc s + length pre\<rparr>"
    have d': "drop (pc s) prog = pre @ Blr r9 # [] @ B l1 # rest"
      using d m by (simp add: pre_def)
    have st: "regs st c_rarg0 = regs s rthread" "regs st r9 = a" "calls st = calls s"
      by (simp_all add: st_def pre_def set_reg_def set_mem_def)
    have run: "run vm ext prog (length pre + 1 + length ([] :: instr list) + 1) s
       = Some ((fold (effect vm) [] (call_extern ext a st))\<lparr>pc := q\<rparr>)"
      by (rule detour_run [OF d' _ st_def _ _ ok l, where r = r9]) (simp_all add: st pre_def)
    show ?thesis
      apply (rule exI, rule exI, rule conjI, rule run)
      apply (simp add: call_extern_frame [where ext = ext and t = a, OF pf] st m)
      done
  next
    assume m: "mid = [RtCall a r9] \<and> arg = regs s c_rarg0"
    define pre where "pre = [Bind l0]"
    define st where "st = (fold (effect vm) pre s)\<lparr>pc := pc s + length pre\<rparr>"
    define sc where "sc = set_reg r9 a st"
    have d': "drop (pc s) prog = pre @ RtCall a r9 # [] @ B l1 # rest"
      using d m by (simp add: pre_def)
    have st: "regs sc c_rarg0 = regs s c_rarg0" "calls sc = calls s"
      by (simp_all add: sc_def st_def pre_def set_reg_def set_mem_def)
    have run: "run vm ext prog (length pre + 1 + length ([] :: instr list) + 1) s
       = Some ((fold (effect vm) [] (call_extern ext a sc))\<lparr>pc := q\<rparr>)"
      by (rule detour_run [OF d' _ st_def _ _ ok l, where tmp = r9]) (simp_all add: sc_def pre_def)
    show ?thesis
      apply (rule exI, rule exI, rule conjI, rule run)
      apply (simp add: call_extern_frame [where ext = ext and t = a, OF pf] st m)
      done
  qed
qed

lemma drop_length_append: "drop (length a) (a @ b) = b"
  by simp

lemma label_pos_at: "Bind l \<notin> set a \<Longrightarrow> label_pos (a @ Bind l # b) l = Some (length a)"
  by (induction a) auto

text \<open>A slow path of the stub, for the output registers the constructor accepts.\<close>

lemma slow_path:
  fixes s :: machine
  assumes shape: "length outs \<le> 1 \<or> (length outs = 2 \<and> \<not> is_valid (outs ! 1))"
    and d: "drop (pc s) prog
              = [Bind l0] @ spill_code True outs 0 @ mid @ spill_code False outs 0 @ B l1 # rest"
    and mid: "mid = [Mov_rr c_rarg0 rthread, Lea r9 (RuntimeAddress a), Blr r9] \<and> arg = regs s rthread
            \<or> mid = [RtCall a r9] \<and> arg = regs s c_rarg0"
    and l: "label_pos prog l1 = Some q"
    and ok: "returned_to s = None"
    and callee: "\<forall>t. preserves_frame (ext t)"
    and frame: "nat (spill_size_bytes (RegSpiller_new outs)) \<le> unat (regs s rfp + 16 - regs s sp)"
  shows "\<exists>k s'. run vm ext prog k s = Some s' \<and> pc s' = q \<and> calls s' = calls s @ [(a, arg)]
      \<and> (\<forall>r. VMGpr r \<in> set outs \<longrightarrow> regs s' r = regs s r)
      \<and> (\<forall>v. VMFpr v \<in> set outs \<longrightarrow> vregs s' v = vregs s v)"
proof -
  from spill_shapes [OF shape] consider
      (none) "spill_code True outs 0 = []" "spill_code False outs 0 = []"
        "\<forall>r. VMGpr r \<notin> set outs" "\<forall>v. VMFpr v \<notin> set outs"
    | (gpr) r where "spill_code True outs 0 = [Str r (BaseOff sp 0)]"
        "spill_code False outs 0 = [Ldr r (BaseOff sp 0)]"
        "\<forall>r'. VMGpr r' \<in> set outs \<longleftrightarrow> r' = r" "\<forall>v. VMFpr v \<notin> set outs"
        "spill_size_bytes (RegSpiller_new outs) = 8"
    | (fpr) v where "spill_code True outs 0 = [Strq v (BaseOff sp 0)]"
        "spill_code False outs 0 = [Ldrq v (BaseOff sp 0)]"
        "\<forall>v'. VMFpr v' \<in> set outs \<longleftrightarrow> v' = v" "\<forall>r. VMGpr r \<notin> set outs"
        "spill_size_bytes (RegSpiller_new outs) = 16"
    by blast
  then show ?thesis
  proof cases
    case none
    from d have "drop (pc s) prog = [Bind l0] @ mid @ B l1 # rest" by (simp add: none)
    from slow_path_none [OF this mid l ok callee, of vm] show ?thesis
      using none(3,4) by fastforce
  next
    case (gpr r)
    from d have d': "drop (pc s) prog
        = [Bind l0, Str r (BaseOff sp 0)] @ mid @ Ldr r (BaseOff sp 0) # B l1 # rest"
      by (simp add: gpr)
    from frame have "8 \<le> unat (regs s rfp + 16 - regs s sp)" by (simp add: gpr)
    from slow_path_gpr [OF d' mid l ok callee this, of vm] show ?thesis
      using gpr(3,4) by fastforce
  next
    case (fpr v)
    from d have d': "drop (pc s) prog
        = [Bind l0, Strq v (BaseOff sp 0)] @ mid @ Ldrq v (BaseOff sp 0) # B l1 # rest"
      by (simp add: fpr)
    from frame have "16 \<le> unat (regs s rfp + 16 - regs s sp)" by (simp add: fpr)
    from slow_path_fpr [OF d' mid l ok callee this, of vm] show ?thesis
      using fpr(3,4) by fastforce
  qed
qed

text \<open>
  C8: the code of the stub ends with the two slow paths.  Each of them spills the
  return registers at offset 0 of the spill region, calls one runtime service (with the
  thread as its argument on the suspension path), fills the return registers from the
  same offset and branches back: the suspension path to the label in front of the
  store of the managed state, the reguard path to the label behind the branch of the
  guard check.  Run from its label, with a callee that keeps the stack pointer, the
  frame pointer and the frame, and with the spill region inside the frame, a slow path
  arrives at its resume label with one more call on record and with every return
  register as it was.
\<close>

theorem C8_slow_paths:
  fixes s :: machine
  assumes mk: "make_native_invoker vm start sg n bt shadow ins outs = Inr res"
    and callee: "\<forall>t. preserves_frame (ext t)"
    and ok: "returned_to s = None"
    and frame: "nat (spill_size_bytes (RegSpiller_new outs)) \<le> unat (regs s rfp + 16 - regs s sp)"
  shows "\<exists>front p1 p2.
      code res = front
           @ [ Bind ''L_after_safepoint_poll'',
               Mov_ri r9 (thread_in_Java vm),
               Lea r10 (BaseOff rthread (thread_state_offset vm)),
               Stlrw r9 r10,
               Ldrb r9 (BaseOff rthread (stack_guard_state_offset vm)),
               Cmpw r9 (stack_guard_yellow_reserved_disabled vm),
               Br EQ ''L_reguard'',
               Bind ''L_after_reguard'',
               ResetLastJavaFrame True,
               Leave,
               Ret lr,
               Bind ''L_safepoint_poll_slow_path'' ]
           @ generate_spill (RegSpiller_new outs) 0
           @ [ Mov_rr c_rarg0 rthread,
               Lea r9 (RuntimeAddress (check_special_condition_for_native_trans vm)),
               Blr r9 ]
           @ generate_fill (RegSpiller_new outs) 0
           @ [ B ''L_after_safepoint_poll'',
               Bind ''L_reguard'' ]
           @ generate_spill (RegSpiller_new outs) 0
           @ [ RtCall (reguard_yellow_pages vm) r9 ]
           @ generate_fill (RegSpiller_new outs) 0
           @ [ B ''L_after_reguard'' ]
    \<and> label_pos (code res) ''L_after_safepoint_poll'' = Some (length front)
    \<and> label_pos (code res) ''L_after_reguard'' = Some (length front + 7)
    \<and> label_pos (code res) ''L_safepoint_poll_slow_path'' = Some p1
    \<and> label_pos (code res) ''L_reguard'' = Some p2
    \<and> (pc s = p1 \<longrightarrow>
         (\<exists>k s'. run vm ext (code res) k s = Some s' \<and> pc s' = length front
            \<and> calls s' = calls s @ [(check_special_condition_for_native_trans vm, regs s rthread)]
            \<and> (\<forall>r. VMGpr r \<in> set outs \<longrightarrow> regs s' r = regs s r)
            \<and> (\<forall>v. VMFpr v \<in> set outs \<longrightarrow> vregs s' v = vregs s v)))
    \<and> (pc s = p2 \<longrightarrow>
         (\<exists>k s'. run vm ext (code res) k s = Some s' \<and> pc s' = length front + 7
            \<and> calls s' = calls s @ [(reguard_yellow_pages vm, regs s c_rarg0)]
            \<and> (\<forall>r. VMGpr r \<in> set outs \<longrightarrow> regs s' r = regs s r)
            \<and> (\<forall>v. VMFpr v \<in> set outs \<longrightarrow> vregs s' v = vregs s v)))"
proof -
  from make_native_invoker_Inr [OF mk] obtain g where
    shape: "length outs \<le> 1 \<or> (length outs = 2 \<and> \<not> is_valid (outs ! 1))"
    and gen: "NativeInvokerGenerator_generate vm start g = Inr res"
    and og: "m_output_registers g = outs"
    by blast
  from generate_layout [OF gen] obtain front0 where
    nb0: "\<forall>i\<in>set front0. \<forall>l. i \<noteq> Bind l"
    and c0: "code res = front0
           @ [ Mov_ri r9 (thread_in_native_trans vm),
               Strw r9 (BaseOff rthread (thread_state_offset vm)),
               Membar 15,
               VerifySveVectorLength r9,
               SafepointPoll ''L_safepoint_poll_slow_path'' True True False r9,
               Ldrw r9 (BaseOff rthread (suspend_flags_offset vm)),
               Cbnzw r9 ''L_safepoint_poll_slow_path'',
               Bind ''L_after_safepoint_poll'',
               Mov_ri r9 (thread_in_Java vm),
               Lea r10 (BaseOff rthread (thread_state_offset vm)),
               Stlrw r9 r10,
               Ldrb r9 (BaseOff rthread (stack_guard_state_offset vm)),
               Cmpw r9 (stack_guard_yellow_reserved_disabled vm),
               Br EQ ''L_reguard'',
               Bind ''L_after_reguard'',
               ResetLastJavaFrame True,
               Leave,
               Ret lr,
               Bind ''L_safepoint_poll_slow_path'' ]
           @ spill_code True (m_output_registers g) 0
           @ [ Mov_rr c_rarg0 rthread,
               Lea r9 (RuntimeAddress (check_special_condition_for_native_trans vm)),
               Blr r9 ]
           @ spill_code False (m_output_registers g) 0
           @ [ B ''L_after_safepoint_poll'',
               Bind ''L_reguard'' ]
           @ spill_code True (m_output_registers g) 0
           @ [ RtCall (reguard_yellow_pages vm) r9 ]
           @ spill_code False (m_output_registers g) 0
           @ [ B ''L_after_reguard'' ]"
    by blast
  define front where "front = front0
           @ [ Mov_ri r9 (thread_in_native_trans vm),
               Strw r9 (BaseOff rthread (thread_state_offset vm)),
               Membar 15,
               VerifySveVectorLength r9,
               SafepointPoll ''L_safepoint_poll_slow_path'' True True False r9,
               Ldrw r9 (BaseOff rthread (suspend_flags_offset vm)),
               Cbnzw r9 ''L_safepoint_poll_slow_path'' ]"
  define spl where "spl = spill_code True outs 0"
  define fil where "fil = spill_code False outs 0"
  define mid1 where "mid1 = [ Mov_rr c_rarg0 rthread,
               Lea r9 (RuntimeAddress (check_special_condition_for_native_trans vm)),
               Blr r9 ]"
  define main where "main = [ Mov_ri r9 (thread_in_Java vm),
               Lea r10 (BaseOff rthread (thread_state_offset vm)),
               Stlrw r9 r10,
               Ldrb r9 (BaseOff rthread (stack_guard_state_offset vm)),
               Cmpw r9 (stack_guard_yellow_reserved_disabled vm),
               Br EQ ''L_reguard'']"
  define fin where "fin = [ResetLastJavaFrame True, Leave, Ret lr]"
  define p1 where "p1 = length front + 11"
  define p2 where "p2 = p1 + 1 + length spl + 3 + length fil + 1"
  have nb: "Bind l \<notin> set front" "Bind l \<notin> set spl" "Bind l \<notin> set fil"
      "Bind l \<notin> set mid1" "Bind l \<notin> set main" "Bind l \<notin> set fin" for l
    using nb0 by (auto simp: front_def spl_def fil_def mid1_def main_def fin_def no_bind_spill_code)
  have c: "code res = front @ Bind ''L_after_safepoint_poll'' # main
           @ Bind ''L_after_reguard'' # fin @ Bind ''L_safepoint_poll_slow_path'' # spl
           @ mid1 @ fil @ B ''L_after_safepoint_poll'' # Bind ''L_reguard'' # spl
           @ RtCall (reguard_yellow_pages vm) r9 # fil @ [B ''L_after_reguard'']"
    using c0 by (simp add: front_def spl_def fil_def mid1_def main_def fin_def og)
  have len: "length main = 6" "length fin = 3" "length mid1 = 3"
    by (simp_all add: main_def fin_def mid1_def)
  have l1: "label_pos (code res) ''L_after_safepoint_poll'' = Some (length front)"
    unfolding c by (rule label_pos_at) (rule nb)
  define rest2 where "rest2 = fin @ Bind ''L_safepoint_poll_slow_path'' # spl
           @ mid1 @ fil @ B ''L_after_safepoint_poll'' # Bind ''L_reguard'' # spl
           @ RtCall (reguard_yellow_pages vm) r9 # fil @ [B ''L_after_reguard'']"
  define rest3 where "rest3 = spl
           @ mid1 @ fil @ B ''L_after_safepoint_poll'' # Bind ''L_reguard'' # spl
           @ RtCall (reguard_yellow_pages vm) r9 # fil @ [B ''L_after_reguard'']"
  define rest4 where "rest4 = spl @ RtCall (reguard_yellow_pages vm) r9 # fil @ [B ''L_after_reguard'']"
  have e2: "code res = (front @ Bind ''L_after_safepoint_poll'' # main)
      @ Bind ''L_after_reguard'' # rest2"
    by (simp add: c rest2_def)
  have e3: "code res = (front @ Bind ''L_after_safepoint_poll'' # main @ Bind ''L_after_reguard'' # fin)
      @ Bind ''L_safepoint_poll_slow_path'' # rest3"
    by (simp add: c rest3_def)
  have e4: "code res = (front @ Bind ''L_after_safepoint_poll'' # main @ Bind ''L_after_reguard'' # fin
      @ Bind ''L_safepoint_poll_slow_path'' # spl @ mid1 @ fil @ [B ''L_after_safepoint_poll''])
      @ Bind ''L_reguard'' # rest4"
    by (simp add: c rest4_def)
  have "label_pos (code res) ''L_after_reguard''
      = Some (length (front @ Bind ''L_after_safepoint_poll'' # main))"
    by (subst e2, rule label_pos_at) (simp add: nb)
  then have l2: "label_pos (code res) ''L_after_reguard'' = Some (length front + 7)"
    by (simp add: len)
  have "label_pos (code res) ''L_safepoint_poll_slow_path''
      = Some (length (front @ Bind ''L_after_safepoint_poll'' # main @ Bind ''L_after_reguard'' # fin))"
    by (subst e3, rule label_pos_at) (simp add: nb)
  then have l3: "label_pos (code res) ''L_safepoint_poll_slow_path'' = Some p1"
    by (simp add: len p1_def)
  have "label_pos (code res) ''L_reguard''
      = Some (length (front @ Bind ''L_after_safepoint_poll'' # main @ Bind ''L_after_reguard'' # fin
      @ Bind ''L_safepoint_poll_slow_path'' # spl @ mid1 @ fil @ [B ''L_after_safepoint_poll'']))"
    by (subst e4, rule label_pos_at) (simp add: nb)
  then have l4: "label_pos (code res) ''L_reguard'' = Some p2"
    by (simp add: len p1_def p2_def)
  have d1: "drop p1 (code res) = [Bind ''L_safepoint_poll_slow_path''] @ spill_code True outs 0
       @ mid1 @ spill_code False outs 0 @ B ''L_after_safepoint_poll''
       # (Bind ''L_reguard'' # spl @ RtCall (reguard_yellow_pages vm) r9 # fil @ [B ''L_after_reguard''])"
    unfolding c by (simp add: p1_def len spl_def fil_def)
  have d2: "drop p2 (code res) = [Bind ''L_reguard''] @ spill_code True outs 0
       @ [RtCall (reguard_yellow_pages vm) r9] @ spill_code False outs 0 @ B ''L_after_reguard'' # []"
  proof -
    have "p2 = length (front @ Bind ''L_after_safepoint_poll'' # main @ Bind ''L_after_reguard'' # fin
      @ Bind ''L_safepoint_poll_slow_path'' # spl @ mid1 @ fil @ [B ''L_after_safepoint_poll''])"
      by (simp add: p2_def p1_def len)
    then have "drop p2 (code res) = Bind ''L_reguard'' # rest4"
      by (subst e4) (simp only: drop_length_append)
    then show ?thesis by (simp add: rest4_def spl_def fil_def)
  qed
  have run1: "\<exists>k s'. run vm ext (code res) k s = Some s' \<and> pc s' = length front
            \<and> calls s' = calls s @ [(check_special_condition_for_native_trans vm, regs s rthread)]
            \<and> (\<forall>r. VMGpr r \<in> set outs \<longrightarrow> regs s' r = regs s r)
            \<and> (\<forall>v. VMFpr v \<in> set outs \<longrightarrow> vregs s' v = vregs s v)" if "pc s = p1"
  proof -
    from d1 that have d: "drop (pc s) (code res) = [Bind ''L_safepoint_poll_slow_path'']
       @ spill_code True outs 0 @ mid1 @ spill_code False outs 0 @ B ''L_after_safepoint_poll''
       # (Bind ''L_reguard'' # spl @ RtCall (reguard_yellow_pages vm) r9 # fil @ [B ''L_after_reguard''])"
      by simp
    show ?thesis
      by (rule slow_path [OF shape d _ l1 ok callee frame]) (simp add: mid1_def)
  qed
  have run2: "\<exists>k s'. run vm ext (code res) k s = Some s' \<and> pc s' = length front + 7
            \<and> calls s' = calls s @ [(reguard_yellow_pages vm, regs s c_rarg0)]
            \<and> (\<forall>r. VMGpr r \<in> set outs \<longrightarrow> regs s' r = regs s r)
            \<and> (\<forall>v. VMFpr v \<in> set outs \<longrightarrow> vregs s' v = vregs s v)" if "pc s = p2"
  proof -
    from d2 that have d: "drop (pc s) (code res) = [Bind ''L_reguard''] @ spill_code True outs 0
       @ [RtCall (reguard_yellow_pages vm) r9] @ spill_code False outs 0 @ B ''L_after_reguard'' # []"
      by simp
    show ?thesis
      by (rule slow_path [OF shape d _ l2 ok callee frame]) simp
  qed
  have lay: "code res = front
           @ [ Bind ''L_after_safepoint_poll'',
               Mov_ri r9 (thread_in_Java vm),
               Lea r10 (BaseOff rthread (thread_state_offset vm)),
               Stlrw r9 r10,
               Ldrb r9 (BaseOff rthread (stack_guard_state_offset vm)),
               Cmpw r9 (stack_guard_yellow_reserved_disabled vm),
               Br EQ ''L_reguard'',
               Bind ''L_after_reguard'',
               ResetLastJavaFrame True,
               Leave,
               Ret lr,
               Bind ''L_safepoint_poll_slow_path'' ]
           @ generate_spill (RegSpiller_new outs) 0
           @ [ Mov_rr c_rarg0 rthread,
               Lea r9 (RuntimeAddress (check_special_condition_for_native_trans vm)),
               Blr r9 ]
           @ generate_fill (RegSpiller_new outs) 0
           @ [ B ''L_after_safepoint_poll'',
               Bind ''L_reguard'' ]
           @ generate_spill (RegSpiller_new outs) 0
           @ [ RtCall (reguard_yellow_pages vm) r9 ]
           @ generate_fill (RegSpiller_new outs) 0
           @ [ B ''L_after_reguard'' ]"
    unfolding c by (simp add: main_def fin_def mid1_def spl_def fil_def generate_spill_def
        generate_fill_def RegSpiller_new_def)
  show ?thesis
    apply (rule exI [where x = front], rule exI [where x = p1], rule exI [where x = p2])
    apply (intro conjI impI)
          apply (rule lay)
         apply (rule l1)
        apply (rule l2)
       apply (rule l3)
      apply (rule l4)
     apply (erule run1)
    apply (erule run2)
    done
qed


lemma example_invoker_generates:
  "\<not> isl (make_native_invoker example_vm 0 [] 0 T_BYTE 0 [] [VMGpr r0])"
  by code_simp

lemma example_invoker_labels:
  "label_pos (code (projr (make_native_invoker example_vm 0 [] 0 T_BYTE 0 [] [VMGpr r0])))
     ''L_after_safepoint_poll'' = Some 15"
  "label_pos (code (projr (make_native_invoker example_vm 0 [] 0 T_BYTE 0 [] [VMGpr r0])))
     ''L_safepoint_poll_slow_path'' = Some 26"
  "label_pos (code (projr (make_native_invoker example_vm 0 [] 0 T_BYTE 0 [] [VMGpr r0])))
     ''L_reguard'' = Some 33"
  by code_simp+

theorem C8_slow_paths_witness:
  "(\<exists>k s'. run example_vm example_extern
       (code (projr (make_native_invoker example_vm 0 [] 0 T_BYTE 0 [] [VMGpr r0]))) k
       (example_machine\<lparr>regs := (regs example_machine)
           (r0 := 42, rthread := 0x3000, sp := 0x8000, rfp := 0x8010), pc := 26\<rparr>) = Some s'
      \<and> pc s' = 15 \<and> calls s' = [(0x7000, 0x3000)] \<and> regs s' r0 = 42)
   \<and> (\<exists>k s'. run example_vm example_extern
       (code (projr (make_native_invoker example_vm 0 [] 0 T_BYTE 0 [] [VMGpr r0]))) k
       (example_machine\<lparr>regs := (regs example_machine)
           (r0 := 42, rthread := 0x3000, sp := 0x8000, rfp := 0x8010), pc := 33\<rparr>) = Some s'
      \<and> pc s' = 22 \<and> calls s' = [(0x7100, 42)] \<and> regs s' r0 = 42)"
proof -
  let ?res = "projr (make_native_invoker example_vm 0 [] 0 T_BYTE 0 [] [VMGpr r0])"
  let ?s = "\<lambda>p. example_machine\<lparr>regs := (regs example_machine)
           (r0 := 42, rthread := 0x3000, sp := 0x8000, rfp := 0x8010), pc := p\<rparr>"
  have mk: "make_native_invoker example_vm 0 [] 0 T_BYTE 0 [] [VMGpr r0] = Inr ?res"
    using example_invoker_generates by simp
  have callee: "\<forall>t. preserves_frame (example_extern t)"
    by (simp add: example_extern_preserves_frame)
  have ok: "returned_to (?s p) = None" for p
    by (simp add: example_machine_def)
  have frame: "nat (spill_size_bytes (RegSpiller_new [VMGpr r0]))
      \<le> unat (regs (?s p) rfp + 16 - regs (?s p) sp)" for p
    by (simp add: RegSpiller_new_def pd_reg_size_def)
  have vals: "regs (?s p) r0 = 42" "regs (?s p) rthread = 0x3000" "calls (?s p) = []"
      "pc (?s p) = p" for p
    by (simp_all add: example_machine_def)
  have vm: "check_special_condition_for_native_trans example_vm = 0x7000"
      "reguard_yellow_pages example_vm = 0x7100"
    by (simp_all add: example_vm_def)
  have a: "\<exists>k s'. run example_vm example_extern (code ?res) k (?s 26) = Some s'
      \<and> pc s' = 15 \<and> calls s' = [(0x7000, 0x3000)] \<and> regs s' r0 = 42"
    using C8_slow_paths [OF mk callee ok frame, of 26]
    by (simp only: example_invoker_labels vals vm option.inject) fastforce
  have b: "\<exists>k s'. run example_vm example_extern (code ?res) k (?s 33) = Some s'
      \<and> pc s' = 22 \<and> calls s' = [(0x7100, 42)] \<and> regs s' r0 = 42"
    using C8_slow_paths [OF mk callee ok frame, of 33]
    by (simp only: example_invoker_labels vals vm option.inject) fastforce
  from a b show ?thesis by (simp only: simp_thms)
qed

section \<open>The state transitions and the frame anchor\<close>

lemma observed_pc_upd:
  "thread_state vm (s\<lparr>pc := k\<rparr>) = thread_state vm s"
  "frame_anchor vm (s\<lparr>pc := k\<rparr>) = frame_anchor vm s"
  by (simp_all add: thread_state_def frame_anchor_def)

lemma run_block_prefix:
  fixes s :: machine
  assumes "returned_to s = None" "take (length blk) (drop (pc s) prog) = blk"
    "list_all falls_through blk" "k \<le> length blk"
  shows "run vm ext prog k s = Some ((fold (effect vm) (take k blk) s)\<lparr>pc := pc s + k\<rparr>)"
proof -
  have l: "length (take k blk) = k" using assms(4) by simp
  have "take k (drop (pc s) prog) = take k (take (length blk) (drop (pc s) prog))"
    using assms(4) by (simp add: min_def)
  then have t: "take (length (take k blk)) (drop (pc s) prog) = take k blk"
    by (simp only: l assms(2))
  have f: "list_all falls_through (take k blk)"
    using assms(3) by (metis append_take_drop_id list_all_append)
  from run_block [OF assms(1) t f, of vm ext] show ?thesis by (simp only: l)
qed

lemma disjoint_regions_commute: "disjoint_regions a n b k \<Longrightarrow> disjoint_regions b k a n"
  by (auto simp: disjoint_regions_def)

lemma load_store_apart:
  "disjoint_regions a l b n \<Longrightarrow> load_le (store_le m a l v) b n = (load_le m b n :: 'b::len word)"
  using load_store_disjoint [where d = 0 and a = a and k = l and l = l] by simp

lemma load_store_apart':
  "disjoint_regions b n a l \<Longrightarrow> load_le (store_le m a l v) b n = (load_le m b n :: 'b::len word)"
  by (rule load_store_apart) (rule disjoint_regions_commute)

text \<open>The stub from its entry to the store of the native state.\<close>

lemma prologue_trace:
  fixes s0 :: machine
  assumes code: "take 6 prog = [Enter, Sub_rri sp rfp imm, SetLastJavaFrame sp rfp the_pc r9,
        Mov_ri r9 native, Lea r10 (BaseOff rthread (thread_state_offset vm)), Stlrw r9 r10]"
    and entry: "pc s0 = 0" "returned_to s0 = None"
    and apart: "thread_fields_apart vm (regs s0 rthread)"
    and stack: "disjoint_regions (regs s0 sp - 16) 16
                  (regs s0 rthread + word_of_int (thread_state_offset vm)) 4"
    and k: "k \<le> 6"
  shows "\<exists>s'. run vm ext prog k s0 = Some s' \<and> pc s' = k
      \<and> (k < 6 \<longrightarrow> thread_state vm s' = thread_state vm s0)
      \<and> (k = 6 \<longrightarrow> thread_state vm s' = ucast native)
      \<and> (3 \<le> k \<longrightarrow> frame_anchor vm s' = (regs s' sp, regs s' rfp, word_of_int the_pc))"
proof -
  define blk where "blk = [Enter, Sub_rri sp rfp imm, SetLastJavaFrame sp rfp the_pc r9,
        Mov_ri r9 native, Lea r10 (BaseOff rthread (thread_state_offset vm)), Stlrw r9 r10]"
  define T where "T = regs s0 rthread"
  define e1 where "e1 = effect vm Enter s0"
  define e2 where "e2 = effect vm (Sub_rri sp rfp imm) e1"
  define e3 where "e3 = effect vm (SetLastJavaFrame sp rfp the_pc r9) e2"
  define e4 where "e4 = effect vm (Mov_ri r9 native) e3"
  define e5 where "e5 = effect vm (Lea r10 (BaseOff rthread (thread_state_offset vm))) e4"
  define e6 where "e6 = effect vm (Stlrw r9 r10) e5"
  have lb: "length blk = 6" by (simp add: blk_def)
  have "take 6 (drop (pc s0) prog) = blk" using code entry by (simp add: blk_def)
  then have t: "take (length blk) (drop (pc s0) prog) = blk" by (simp only: lb)
  have t': "list_all falls_through blk" "k \<le> length blk"
    using k by (simp_all add: blk_def)
  from run_block_prefix [OF entry(2) t t', of vm ext]
  have run: "run vm ext prog k s0 = Some ((fold (effect vm) (take k blk) s0)\<lparr>pc := k\<rparr>)"
    by (simp add: entry)
  have st1: "load_le (store_le m (regs s0 sp - 16) 8 v) (T + word_of_int (thread_state_offset vm)) 4
      = (load_le m (T + word_of_int (thread_state_offset vm)) 4 :: 32 word)" for m and v :: "64 word"
    using load_store_disjoint [OF stack, where d = 0 and l = 8] by (simp add: T_def)
  have st2: "load_le (store_le m (regs s0 sp - 8) 8 v) (T + word_of_int (thread_state_offset vm)) 4
      = (load_le m (T + word_of_int (thread_state_offset vm)) 4 :: 32 word)" for m and v :: "64 word"
    using load_store_disjoint [OF stack, where d = 8 and l = 8] by (simp add: T_def)
  have ap: "disjoint_regions (T + word_of_int (last_Java_pc_offset vm)) 8
                       (T + word_of_int (last_Java_sp_offset vm)) 8"
    "disjoint_regions (T + word_of_int (last_Java_pc_offset vm)) 8
                       (T + word_of_int (last_Java_fp_offset vm)) 8"
    "disjoint_regions (T + word_of_int (last_Java_sp_offset vm)) 8
                       (T + word_of_int (last_Java_fp_offset vm)) 8"
    "disjoint_regions (T + word_of_int (thread_state_offset vm)) 4
                       (T + word_of_int (last_Java_sp_offset vm)) 8"
    "disjoint_regions (T + word_of_int (thread_state_offset vm)) 4
                       (T + word_of_int (last_Java_fp_offset vm)) 8"
    "disjoint_regions (T + word_of_int (thread_state_offset vm)) 4
                       (T + word_of_int (last_Java_pc_offset vm)) 8"
    using apart by (simp_all add: thread_fields_apart_def T_def)
  note ap' = ap [THEN disjoint_regions_commute]
  have r: "regs e1 rthread = T" "regs e2 rthread = T" "regs e3 rthread = T" "regs e4 rthread = T"
      "regs e5 rthread = T" "regs e6 rthread = T"
    by (simp_all add: e1_def e2_def e3_def e4_def e5_def e6_def T_def Let_def set_reg_def set_mem_def)
  have m: "mem e1 = store64 (store64 (mem s0) (regs s0 sp - 16) (regs s0 rfp)) (regs s0 sp - 16 + 8) (regs s0 lr)"
      "mem e2 = mem e1"
      "mem e3 = store64 (store64 (store64 (mem e2) (T + word_of_int (last_Java_pc_offset vm)) (word_of_int the_pc))
                  (T + word_of_int (last_Java_sp_offset vm)) (regs e2 sp))
                  (T + word_of_int (last_Java_fp_offset vm)) (regs e2 rfp)"
      "mem e4 = mem e3" "mem e5 = mem e3"
      "mem e6 = store32 (mem e3) (T + word_of_int (thread_state_offset vm)) (ucast native)"
    by (simp_all add: e1_def e2_def e3_def e4_def e5_def e6_def T_def Let_def set_reg_def set_mem_def)
  have f: "regs e3 sp = regs e2 sp" "regs e3 rfp = regs e2 rfp"
      "regs e4 sp = regs e2 sp" "regs e4 rfp = regs e2 rfp"
      "regs e5 sp = regs e2 sp" "regs e5 rfp = regs e2 rfp"
      "regs e6 sp = regs e2 sp" "regs e6 rfp = regs e2 rfp"
    by (simp_all add: e3_def e4_def e5_def e6_def Let_def set_reg_def set_mem_def)
  have ts: "thread_state vm e1 = thread_state vm s0" "thread_state vm e2 = thread_state vm s0"
      "thread_state vm e3 = thread_state vm s0" "thread_state vm e4 = thread_state vm s0"
      "thread_state vm e5 = thread_state vm s0" "thread_state vm e6 = ucast native"
    by (simp_all add: thread_state_def r m T_def [symmetric] load32_def store64_def store32_def
        st1 st2 load_store_apart [OF ap'(4)] load_store_apart [OF ap'(5)] load_store_apart [OF ap'(6)]
        load_store_le_same)
  have fa3: "frame_anchor vm e3 = (regs e2 sp, regs e2 rfp, word_of_int the_pc)"
    by (simp add: frame_anchor_def r m load64_def store64_def load_store_le_same
        load_store_apart [OF ap(1)] load_store_apart [OF ap(2)] load_store_apart [OF ap(3)]
        load_store_apart [OF ap'(1)] load_store_apart [OF ap'(2)] load_store_apart [OF ap'(3)])
  have fa: "frame_anchor vm e4 = frame_anchor vm e3" "frame_anchor vm e5 = frame_anchor vm e3"
      "frame_anchor vm e6 = frame_anchor vm e3"
    by (simp_all add: frame_anchor_def r m load64_def store32_def
        load_store_apart [OF ap(4)] load_store_apart [OF ap(5)] load_store_apart [OF ap(6)])
  from k consider "k = 0" | "k = 1" | "k = 2" | "k = 3" | "k = 4" | "k = 5" | "k = 6"
    by linarith
  then show ?thesis
  proof cases
    case 1
    then show ?thesis using entry by simp
  next
    case 2
    have "fold (effect vm) (take k blk) s0 = e1" by (simp add: 2 blk_def e1_def)
    with run show ?thesis by (simp add: 2 observed_pc_upd ts fa3 fa f)
  next
    case 3
    have "fold (effect vm) (take k blk) s0 = e2" by (simp add: 3 blk_def e1_def e2_def)
    with run show ?thesis by (simp add: 3 observed_pc_upd ts fa3 fa f)
  next
    case 4
    have "fold (effect vm) (take k blk) s0 = e3" by (simp add: 4 blk_def e1_def e2_def e3_def)
    with run show ?thesis by (simp add: 4 observed_pc_upd ts fa3 fa f)
  next
    case 5
    have "fold (effect vm) (take k blk) s0 = e4" by (simp add: 5 blk_def e1_def e2_def e3_def e4_def)
    with run show ?thesis by (simp add: 5 observed_pc_upd ts fa3 fa f)
  next
    case 6
    have "fold (effect vm) (take k blk) s0 = e5" by (simp add: 6 blk_def e1_def e2_def e3_def e4_def e5_def)
    with run show ?thesis by (simp add: 6 observed_pc_upd ts fa3 fa f)
  next
    case 7
    have "fold (effect vm) (take k blk) s0 = e6" by (simp add: 7 blk_def e1_def e2_def e3_def e4_def e5_def e6_def)
    with run show ?thesis by (simp add: 7 observed_pc_upd ts fa3 fa f)
  qed
qed

lemma run1_at_Br:
  fixes s :: machine
  assumes "drop (pc s) prog = Br EQ l # rest" "returned_to s = None" "\<not> flag_eq s"
  shows "run vm ext prog 1 s = Some (advance s)"
  using nth_of_drop [OF assms(1), of 0] assms(2,3) by (simp add: run_one step.simps branch_if_def)

lemma ucast_byte_twice: "(ucast (ucast (b :: 8 word) :: 64 word) :: 32 word) = ucast b"
  by (rule bit_word_eqI) (auto simp: bit_simps)

text \<open>The stub from the label behind the poll to the reset of the frame anchor, when
  the guard pages need no repair.\<close>

lemma epilogue_trace:
  fixes s :: machine
  assumes code: "take 9 (drop (pc s) prog) = [Bind l1, Mov_ri r9 java,
        Lea r10 (BaseOff rthread (thread_state_offset vm)), Stlrw r9 r10,
        Ldrb r9 (BaseOff rthread (stack_guard_state_offset vm)), Cmpw r9 yellow,
        Br EQ l2, Bind l3, ResetLastJavaFrame True]"
    and ok: "returned_to s = None"
    and apart: "thread_fields_apart vm (regs s rthread)"
    and fast: "(ucast (stack_guard_state vm s) :: 32 word) \<noteq> yellow"
    and k: "k \<le> 9"
  shows "\<exists>s'. run vm ext prog k s = Some s' \<and> pc s' = pc s + k
      \<and> (k < 4 \<longrightarrow> thread_state vm s' = thread_state vm s)
      \<and> (4 \<le> k \<longrightarrow> thread_state vm s' = ucast java)
      \<and> (k < 9 \<longrightarrow> frame_anchor vm s' = frame_anchor vm s)
      \<and> (k = 9 \<longrightarrow> frame_anchor vm s' = (0, 0, 0))"
proof -
  define blk where "blk = [Bind l1, Mov_ri r9 java,
        Lea r10 (BaseOff rthread (thread_state_offset vm)), Stlrw r9 r10,
        Ldrb r9 (BaseOff rthread (stack_guard_state_offset vm)), Cmpw r9 yellow]"
  define blk2 where "blk2 = [Bind l3, ResetLastJavaFrame True]"
  define T where "T = regs s rthread"
  define e2 where "e2 = effect vm (Mov_ri r9 java) s"
  define e3 where "e3 = effect vm (Lea r10 (BaseOff rthread (thread_state_offset vm))) e2"
  define e4 where "e4 = effect vm (Stlrw r9 r10) e3"
  define e5 where "e5 = effect vm (Ldrb r9 (BaseOff rthread (stack_guard_state_offset vm))) e4"
  define e6 where "e6 = effect vm (Cmpw r9 yellow) e5"
  define s7 where "s7 = e6\<lparr>pc := pc s + 7\<rparr>"
  define e9 where "e9 = effect vm (ResetLastJavaFrame True) s7"
  have dr: "drop (pc s) prog = blk @ Br EQ l2 # blk2 @ drop 9 (drop (pc s) prog)"
    using code by (metis append_take_drop_id append_Cons append_Nil blk_def blk2_def append_assoc)
  have lb: "length blk = 6" "length blk2 = 2" by (simp_all add: blk_def blk2_def)
  have "take 6 (drop (pc s) prog) = blk" by (subst dr) (simp add: lb)
  then have t: "take (length blk) (drop (pc s) prog) = blk" by (simp only: lb)
  have t': "list_all falls_through blk" by (simp add: blk_def)
  have run: "run vm ext prog j s = Some ((fold (effect vm) (take j blk) s)\<lparr>pc := pc s + j\<rparr>)"
    if "j \<le> 6" for j
    using run_block_prefix [OF ok t t', of j vm ext] that by (simp add: lb)
  have ap: "disjoint_regions (T + word_of_int (last_Java_pc_offset vm)) 8
                       (T + word_of_int (last_Java_sp_offset vm)) 8"
    "disjoint_regions (T + word_of_int (last_Java_pc_offset vm)) 8
                       (T + word_of_int (last_Java_fp_offset vm)) 8"
    "disjoint_regions (T + word_of_int (last_Java_sp_offset vm)) 8
                       (T + word_of_int (last_Java_fp_offset vm)) 8"
    "disjoint_regions (T + word_of_int (thread_state_offset vm)) 4
                       (T + word_of_int (last_Java_sp_offset vm)) 8"
    "disjoint_regions (T + word_of_int (thread_state_offset vm)) 4
                       (T + word_of_int (last_Java_fp_offset vm)) 8"
    "disjoint_regions (T + word_of_int (thread_state_offset vm)) 4
                       (T + word_of_int (last_Java_pc_offset vm)) 8"
    "disjoint_regions (T + word_of_int (thread_state_offset vm)) 4
                       (T + word_of_int (stack_guard_state_offset vm)) 1"
    using apart by (simp_all add: thread_fields_apart_def T_def)
  note ap' = ap [THEN disjoint_regions_commute]
  have r: "regs e2 rthread = T" "regs e3 rthread = T" "regs e4 rthread = T"
      "regs e5 rthread = T" "regs e6 rthread = T" "regs s7 rthread = T" "regs e9 rthread = T"
    by (simp_all add: e2_def e3_def e4_def e5_def e6_def s7_def e9_def T_def Let_def set_reg_def set_mem_def)
  have m: "mem e2 = mem s" "mem e3 = mem s"
      "mem e4 = store32 (mem s) (T + word_of_int (thread_state_offset vm)) (ucast java)"
      "mem e5 = mem e4" "mem e6 = mem e4" "mem s7 = mem e4"
      "mem e9 = store64 (store64 (store64 (mem e4) (T + word_of_int (last_Java_sp_offset vm)) 0)
                  (T + word_of_int (last_Java_fp_offset vm)) 0)
                  (T + word_of_int (last_Java_pc_offset vm)) 0"
    by (simp_all add: e2_def e3_def e4_def e5_def e6_def s7_def e9_def T_def Let_def set_reg_def set_mem_def)
  have ts: "thread_state vm e2 = thread_state vm s" "thread_state vm e3 = thread_state vm s"
      "thread_state vm e4 = ucast java" "thread_state vm e5 = ucast java"
      "thread_state vm e6 = ucast java" "thread_state vm s7 = ucast java"
      "thread_state vm e9 = ucast java"
    by (simp_all add: thread_state_def r m T_def [symmetric] load32_def store64_def store32_def
        load_store_apart [OF ap'(4)] load_store_apart [OF ap'(5)] load_store_apart [OF ap'(6)]
        load_store_le_same)
  have fa: "frame_anchor vm e2 = frame_anchor vm s" "frame_anchor vm e3 = frame_anchor vm s"
      "frame_anchor vm e4 = frame_anchor vm s" "frame_anchor vm e5 = frame_anchor vm s"
      "frame_anchor vm e6 = frame_anchor vm s" "frame_anchor vm s7 = frame_anchor vm s"
    by (simp_all add: frame_anchor_def r m T_def [symmetric] load64_def store32_def
        load_store_apart [OF ap(4)] load_store_apart [OF ap(5)] load_store_apart [OF ap(6)])
  have fa9: "frame_anchor vm e9 = (0, 0, 0)"
    by (simp add: frame_anchor_def r m load64_def store64_def load_store_le_same
        load_store_apart [OF ap(1)] load_store_apart [OF ap(2)] load_store_apart [OF ap(3)]
        load_store_apart [OF ap'(1)] load_store_apart [OF ap'(2)] load_store_apart [OF ap'(3)])
  have "\<not> in_region (T + word_of_int (thread_state_offset vm)) 4
          (T + word_of_int (stack_guard_state_offset vm) + of_nat 0)"
    by (rule disjoint_regions_not_in [OF ap(7)]) simp
  then have "mem e4 (T + word_of_int (stack_guard_state_offset vm)) = stack_guard_state vm s"
    by (simp add: m store32_def store_le_other stack_guard_state_def T_def)
  then have fl: "\<not> flag_eq e6"
    using fast by (simp add: e6_def e5_def r set_reg_def ucast_byte_twice)
  have f6: "fold (effect vm) (take 6 blk) s = e6"
    by (simp add: blk_def e2_def e3_def e4_def e5_def e6_def)
  from run [of 6] have run6: "run vm ext prog 6 s = Some (e6\<lparr>pc := pc s + 6\<rparr>)"
    by (simp add: f6)
  have d6: "drop (pc (e6\<lparr>pc := pc s + 6\<rparr>)) prog = Br EQ l2 # blk2 @ drop 9 (drop (pc s) prog)"
  proof -
    have "drop (pc s + 6) prog = drop 6 (drop (pc s) prog)" by (simp add: add.commute)
    also have "\<dots> = Br EQ l2 # blk2 @ drop 9 (drop (pc s) prog)"
      by (subst dr) (simp add: lb)
    finally show ?thesis by simp
  qed
  have "run vm ext prog 1 (e6\<lparr>pc := pc s + 6\<rparr>) = Some (advance (e6\<lparr>pc := pc s + 6\<rparr>))"
  proof (rule run1_at_Br [OF d6])
    show "returned_to (e6\<lparr>pc := pc s + 6\<rparr>) = None"
      by (simp add: e6_def e5_def e4_def e3_def e2_def ok Let_def set_reg_def set_mem_def)
    show "\<not> flag_eq (e6\<lparr>pc := pc s + 6\<rparr>)" using fl by simp
  qed
  then have "run vm ext prog 1 (e6\<lparr>pc := pc s + 6\<rparr>) = Some s7"
    by (simp add: advance_def s7_def)
  from run_trans [OF run6 this] have run7: "run vm ext prog 7 s = Some s7" by simp
  have ok7: "returned_to s7 = None" "pc s7 = pc s + 7"
    by (simp_all add: s7_def e6_def e5_def e4_def e3_def e2_def ok Let_def set_reg_def set_mem_def)
  have d7: "take (length blk2) (drop (pc s7) prog) = blk2"
  proof -
    have "drop (pc s7) prog = drop 7 (drop (pc s) prog)" by (simp add: ok7 add.commute)
    also have "\<dots> = blk2 @ drop 9 (drop (pc s) prog)"
      by (subst dr) (simp add: lb)
    finally show ?thesis by simp
  qed
  have t7: "list_all falls_through blk2" by (simp add: blk2_def)
  have run': "run vm ext prog (7 + j) s = Some ((fold (effect vm) (take j blk2) s7)\<lparr>pc := pc s + 7 + j\<rparr>)"
    if "j \<le> 2" for j
    using run_trans [OF run7 run_block_prefix [OF ok7(1) d7 t7, of j vm ext]] that
    by (simp add: lb ok7)
  from k consider "k = 0" | "k = 1" | "k = 2" | "k = 3" | "k = 4" | "k = 5" | "k = 6"
    | "k = 7" | "k = 8" | "k = 9"
    by atomize_elim presburger
  then show ?thesis
  proof cases
    case 1
    then show ?thesis by simp
  next
    case 2
    have "fold (effect vm) (take k blk) s = s" by (simp add: 2 blk_def)
    with run [of k] show ?thesis by (simp add: 2 observed_pc_upd)
  next
    case 3
    have "fold (effect vm) (take k blk) s = e2" by (simp add: 3 blk_def e2_def)
    with run [of k] show ?thesis by (simp add: 3 observed_pc_upd ts fa)
  next
    case 4
    have "fold (effect vm) (take k blk) s = e3" by (simp add: 4 blk_def e2_def e3_def)
    with run [of k] show ?thesis by (simp add: 4 observed_pc_upd ts fa)
  next
    case 5
    have "fold (effect vm) (take k blk) s = e4" by (simp add: 5 blk_def e2_def e3_def e4_def)
    with run [of k] show ?thesis by (simp add: 5 observed_pc_upd ts fa)
  next
    case 6
    have "fold (effect vm) (take k blk) s = e5" by (simp add: 6 blk_def e2_def e3_def e4_def e5_def)
    with run [of k] show ?thesis by (simp add: 6 observed_pc_upd ts fa)
  next
    case 7
    with run6 show ?thesis by (simp add: observed_pc_upd ts fa)
  next
    case 8
    with run7 show ?thesis by (simp add: ok7 ts fa)
  next
    case 9
    have "fold (effect vm) (take 1 blk2) s7 = s7" by (simp add: blk2_def)
    with run' [of 1] show ?thesis by (simp add: 9 observed_pc_upd ts fa)
  next
    case 10
    have "fold (effect vm) (take 2 blk2) s7 = e9" by (simp add: blk2_def e9_def)
    with run' [of 2] show ?thesis by (simp add: 10 observed_pc_upd ts fa9)
  qed
qed

lemma no_transition_op_spill_code: "filter transition_op (spill_code sf vs off) = []"
  by (induction vs arbitrary: off) (auto split: VMReg.splits)

lemma no_transition_op_unpack:
  "unpack_native_results bt = Inr u \<Longrightarrow> filter transition_op u = []"
  by (auto simp: unpack_native_results_def split: BasicType.splits)

lemma no_transition_op_moves: "filter transition_op (map (\<lambda>m. MoveLoc (fst m) (snd m)) ms) = []"
  by (induction ms) auto

text \<open>
  C2: the operations of the emitted code that load a thread state, store a word or
  write the frame anchor are, in program order: the publication of the anchor, the
  native state and its store-release, the state of the return transition and its plain
  store, the managed state and its store-release, and the reset of the anchor.  Run
  from the entry, the stub leaves the state word of the thread as it found it for five
  steps, the anchor holds the stack pointer, the frame pointer and the pc of the stub
  from the third step on, and the sixth step, the store-release, makes the state
  native.  Run from the label behind the poll, when the guard pages need no repair,
  the fourth step, the store-release, makes the state managed, the anchor stays as it
  was for eight steps and the ninth step clears it.  Memory is the memory of one
  processor here: what the store-release adds for an observer on another processor is
  carried by the operation alone.
\<close>

theorem C2_anchor_before_native_state:
  fixes s0 s :: machine
  assumes gen: "NativeInvokerGenerator_generate vm start g = Inr res"
    and entry: "pc s0 = 0" "returned_to s0 = None"
    and apart0: "thread_fields_apart vm (regs s0 rthread)"
    and stack0: "disjoint_regions (regs s0 sp - 16) 16
                   (regs s0 rthread + word_of_int (thread_state_offset vm)) 4"
    and resume: "label_pos (code res) ''L_after_safepoint_poll'' = Some (pc s)" "returned_to s = None"
    and apart: "thread_fields_apart vm (regs s rthread)"
    and fast: "(ucast (stack_guard_state vm s) :: 32 word) \<noteq> stack_guard_yellow_reserved_disabled vm"
  shows "filter transition_op (code res) =
           [ SetLastJavaFrame sp rfp (start + 2) r9,
             Mov_ri r9 (thread_in_native vm), Stlrw r9 r10,
             Mov_ri r9 (thread_in_native_trans vm), Strw r9 (BaseOff rthread (thread_state_offset vm)),
             Mov_ri r9 (thread_in_Java vm), Stlrw r9 r10,
             ResetLastJavaFrame True ]
    \<and> code res ! 2 = SetLastJavaFrame sp rfp (start + 2) r9
    \<and> code res ! 5 = Stlrw r9 r10
    \<and> code res ! (pc s + 3) = Stlrw r9 r10
    \<and> code res ! (pc s + 8) = ResetLastJavaFrame True
    \<and> (\<forall>k\<le>6. \<exists>s'. run vm ext (code res) k s0 = Some s' \<and> pc s' = k
          \<and> (k < 6 \<longrightarrow> thread_state vm s' = thread_state vm s0)
          \<and> (k = 6 \<longrightarrow> thread_state vm s' = ucast (thread_in_native vm))
          \<and> (3 \<le> k \<longrightarrow> frame_anchor vm s' = (regs s' sp, regs s' rfp, word_of_int (start + 2))))
    \<and> (\<forall>k\<le>9. \<exists>s'. run vm ext (code res) k s = Some s' \<and> pc s' = pc s + k
          \<and> (k < 4 \<longrightarrow> thread_state vm s' = thread_state vm s)
          \<and> (4 \<le> k \<longrightarrow> thread_state vm s' = ucast (thread_in_Java vm))
          \<and> (k < 9 \<longrightarrow> frame_anchor vm s' = frame_anchor vm s)
          \<and> (k = 9 \<longrightarrow> frame_anchor vm s' = (0, 0, 0)))"
proof (rule generate_Inr [OF gen])
  fix sh :: ArgumentShuffle and unpack
  assume u: "unpack_native_results (m_ret_bt g) = Inr unpack"
    and c: "code res =
           [ Enter,
             Sub_rri sp rfp (ucast (push_bit LogBytesPerInt ((word_of_int (g_framesize res) :: 32 word) - 4))),
             SetLastJavaFrame sp rfp (start + 2) r9,
             Mov_ri r9 (thread_in_native vm),
             Lea r10 (BaseOff rthread (thread_state_offset vm)),
             Stlrw r9 r10 ]
           @ map (\<lambda>m. MoveLoc (fst m) (snd m)) (moves sh)
           @ [ Blr r9 ]
           @ unpack
           @ [ Mov_ri r9 (thread_in_native_trans vm),
               Strw r9 (BaseOff rthread (thread_state_offset vm)),
               Membar 15,
               VerifySveVectorLength r9,
               SafepointPoll ''L_safepoint_poll_slow_path'' True True False r9,
               Ldrw r9 (BaseOff rthread (suspend_flags_offset vm)),
               Cbnzw r9 ''L_safepoint_poll_slow_path'',
               Bind ''L_after_safepoint_poll'',
               Mov_ri r9 (thread_in_Java vm),
               Lea r10 (BaseOff rthread (thread_state_offset vm)),
               Stlrw r9 r10,
               Ldrb r9 (BaseOff rthread (stack_guard_state_offset vm)),
               Cmpw r9 (stack_guard_yellow_reserved_disabled vm),
               Br EQ ''L_reguard'',
               Bind ''L_after_reguard'',
               ResetLastJavaFrame True,
               Leave,
               Ret lr,
               Bind ''L_safepoint_poll_slow_path'' ]
           @ spill_code True (m_output_registers g) 0
           @ [ Mov_rr c_rarg0 rthread,
               Lea r9 (RuntimeAddress (check_special_condition_for_native_trans vm)),
               Blr r9 ]
           @ spill_code False (m_output_registers g) 0
           @ [ B ''L_after_safepoint_poll'',
               Bind ''L_reguard'' ]
           @ spill_code True (m_output_registers g) 0
           @ [ RtCall (reguard_yellow_pages vm) r9 ]
           @ spill_code False (m_output_registers g) 0
           @ [ B ''L_after_reguard'' ]"
  define front where "front =
           [ Enter,
             Sub_rri sp rfp (ucast (push_bit LogBytesPerInt ((word_of_int (g_framesize res) :: 32 word) - 4))),
             SetLastJavaFrame sp rfp (start + 2) r9,
             Mov_ri r9 (thread_in_native vm),
             Lea r10 (BaseOff rthread (thread_state_offset vm)),
             Stlrw r9 r10 ]
           @ map (\<lambda>m. MoveLoc (fst m) (snd m)) (moves sh)
           @ [ Blr r9 ]
           @ unpack
           @ [ Mov_ri r9 (thread_in_native_trans vm),
               Strw r9 (BaseOff rthread (thread_state_offset vm)),
               Membar 15,
               VerifySveVectorLength r9,
               SafepointPoll ''L_safepoint_poll_slow_path'' True True False r9,
               Ldrw r9 (BaseOff rthread (suspend_flags_offset vm)),
               Cbnzw r9 ''L_safepoint_poll_slow_path'' ]"
  define tail9 where "tail9 =
             [ Bind ''L_after_safepoint_poll'',
               Mov_ri r9 (thread_in_Java vm),
               Lea r10 (BaseOff rthread (thread_state_offset vm)),
               Stlrw r9 r10,
               Ldrb r9 (BaseOff rthread (stack_guard_state_offset vm)),
               Cmpw r9 (stack_guard_yellow_reserved_disabled vm),
               Br EQ ''L_reguard'',
               Bind ''L_after_reguard'',
               ResetLastJavaFrame True ]"
  define rest where "rest =
             [ Leave,
               Ret lr,
               Bind ''L_safepoint_poll_slow_path'' ]
           @ spill_code True (m_output_registers g) 0
           @ [ Mov_rr c_rarg0 rthread,
               Lea r9 (RuntimeAddress (check_special_condition_for_native_trans vm)),
               Blr r9 ]
           @ spill_code False (m_output_registers g) 0
           @ [ B ''L_after_safepoint_poll'',
               Bind ''L_reguard'' ]
           @ spill_code True (m_output_registers g) 0
           @ [ RtCall (reguard_yellow_pages vm) r9 ]
           @ spill_code False (m_output_registers g) 0
           @ [ B ''L_after_reguard'' ]"
  have c': "code res = front @ tail9 @ rest"
    by (simp add: c front_def tail9_def rest_def)
  have lb: "length tail9 = 9" by (simp add: tail9_def)
  have nb: "Bind ''L_after_safepoint_poll'' \<notin> set front"
    using no_bind_unpack [OF u] by (auto simp: front_def)
  have "code res = front @ Bind ''L_after_safepoint_poll'' # (tl tail9 @ rest)"
    by (simp add: c' tail9_def)
  then have "label_pos (code res) ''L_after_safepoint_poll'' = Some (length front)"
    using label_pos_at [OF nb] by simp
  with resume(1) have pcs: "pc s = length front" by simp
  have t6: "take 6 (code res) =
           [ Enter,
             Sub_rri sp rfp (ucast (push_bit LogBytesPerInt ((word_of_int (g_framesize res) :: 32 word) - 4))),
             SetLastJavaFrame sp rfp (start + 2) r9,
             Mov_ri r9 (thread_in_native vm),
             Lea r10 (BaseOff rthread (thread_state_offset vm)),
             Stlrw r9 r10 ]"
    by (simp add: c)
  have "take 9 (drop (pc s) (code res)) = tail9"
    by (simp add: pcs c' lb)
  then have t9: "take 9 (drop (pc s) (code res)) =
             [ Bind ''L_after_safepoint_poll'',
               Mov_ri r9 (thread_in_Java vm),
               Lea r10 (BaseOff rthread (thread_state_offset vm)),
               Stlrw r9 r10,
               Ldrb r9 (BaseOff rthread (stack_guard_state_offset vm)),
               Cmpw r9 (stack_guard_yellow_reserved_disabled vm),
               Br EQ ''L_reguard'',
               Bind ''L_after_reguard'',
               ResetLastJavaFrame True ]"
    by (simp only: tail9_def)
  have f: "filter transition_op (code res) =
           [ SetLastJavaFrame sp rfp (start + 2) r9,
             Mov_ri r9 (thread_in_native vm), Stlrw r9 r10,
             Mov_ri r9 (thread_in_native_trans vm), Strw r9 (BaseOff rthread (thread_state_offset vm)),
             Mov_ri r9 (thread_in_Java vm), Stlrw r9 r10,
             ResetLastJavaFrame True ]"
    by (simp add: c no_transition_op_spill_code no_transition_op_unpack [OF u]
        no_transition_op_moves)
  have n: "code res ! 2 = SetLastJavaFrame sp rfp (start + 2) r9" "code res ! 5 = Stlrw r9 r10"
    by (simp_all add: c)
  have n': "code res ! (pc s + 3) = Stlrw r9 r10" "code res ! (pc s + 8) = ResetLastJavaFrame True"
    by (simp_all add: pcs c' nth_append tail9_def)
  have p: "\<exists>s'. run vm ext (code res) k s0 = Some s' \<and> pc s' = k
          \<and> (k < 6 \<longrightarrow> thread_state vm s' = thread_state vm s0)
          \<and> (k = 6 \<longrightarrow> thread_state vm s' = ucast (thread_in_native vm))
          \<and> (3 \<le> k \<longrightarrow> frame_anchor vm s' = (regs s' sp, regs s' rfp, word_of_int (start + 2)))"
    if "k \<le> 6" for k
    by (rule prologue_trace [OF t6 entry apart0 stack0 that])
  have e: "\<exists>s'. run vm ext (code res) k s = Some s' \<and> pc s' = pc s + k
          \<and> (k < 4 \<longrightarrow> thread_state vm s' = thread_state vm s)
          \<and> (4 \<le> k \<longrightarrow> thread_state vm s' = ucast (thread_in_Java vm))
          \<and> (k < 9 \<longrightarrow> frame_anchor vm s' = frame_anchor vm s)
          \<and> (k = 9 \<longrightarrow> frame_anchor vm s' = (0, 0, 0))"
    if "k \<le> 9" for k
    by (rule epilogue_trace [OF t9 resume(2) apart fast that])
  show ?thesis
    apply (intro conjI allI impI)
          apply (rule f)
         apply (rule n(1))
        apply (rule n(2))
       apply (rule n'(1))
      apply (rule n'(2))
     apply (erule p)
    apply (erule e)
    done
qed

lemma example_byte_resume:
  "label_pos (code (projr (NativeInvokerGenerator_generate example_vm 0 example_byte)))
     ''L_after_safepoint_poll'' = Some 15"
  by code_simp

theorem C2_anchor_before_native_state_witness:
  "(\<exists>s'. run example_vm example_extern
           (code (projr (NativeInvokerGenerator_generate example_vm 0 example_byte))) 6
           (example_machine\<lparr>regs := (regs example_machine)(rthread := 0x3000, sp := 0x8000)\<rparr>)
         = Some s'
      \<and> thread_state example_vm s' = 4
      \<and> frame_anchor example_vm s' = (regs s' sp, regs s' rfp, 2))
   \<and> (\<exists>s'. run example_vm example_extern
           (code (projr (NativeInvokerGenerator_generate example_vm 0 example_byte))) 9
           (example_machine\<lparr>regs := (regs example_machine)(rthread := 0x3000), pc := 15\<rparr>)
         = Some s'
      \<and> thread_state example_vm s' = 8
      \<and> frame_anchor example_vm s' = (0, 0, 0))"
proof -
  let ?res = "projr (NativeInvokerGenerator_generate example_vm 0 example_byte)"
  let ?entry = "example_machine\<lparr>regs := (regs example_machine)(rthread := 0x3000, sp := 0x8000)\<rparr>"
  let ?resumed = "example_machine\<lparr>regs := (regs example_machine)(rthread := 0x3000), pc := 15\<rparr>"
  have gen: "NativeInvokerGenerator_generate example_vm 0 example_byte = Inr ?res"
    using example_byte_generates by simp
  have entry: "pc ?entry = 0" "returned_to ?entry = None"
    by (simp_all add: example_machine_def)
  have apart0: "thread_fields_apart example_vm (regs ?entry rthread)"
    by (simp add: thread_fields_apart_def example_vm_def example_machine_def disjoint_regions_def separated_def)
  have stack0: "disjoint_regions (regs ?entry sp - 16) 16
                   (regs ?entry rthread + word_of_int (thread_state_offset example_vm)) 4"
    by (simp add: example_vm_def example_machine_def disjoint_regions_def separated_def)
  have resume: "label_pos (code ?res) ''L_after_safepoint_poll'' = Some (pc ?resumed)" "returned_to ?resumed = None"
    by (simp_all add: example_byte_resume example_machine_def)
  have apart: "thread_fields_apart example_vm (regs ?resumed rthread)"
    by (simp add: thread_fields_apart_def example_vm_def example_machine_def disjoint_regions_def separated_def)
  have fast: "(ucast (stack_guard_state example_vm ?resumed) :: 32 word)
      \<noteq> stack_guard_yellow_reserved_disabled example_vm"
    by (simp add: stack_guard_state_def example_vm_def example_machine_def)
  have vm: "thread_in_native example_vm = 4" "thread_in_Java example_vm = 8"
    by (simp_all add: example_vm_def)
  note t = C2_anchor_before_native_state [OF gen entry apart0 stack0 resume apart fast,
      of example_extern]
  note t6 = t [THEN conjunct2, THEN conjunct2, THEN conjunct2, THEN conjunct2, THEN conjunct2,
      THEN conjunct1, rule_format, of 6]
  note t9 = t [THEN conjunct2, THEN conjunct2, THEN conjunct2, THEN conjunct2, THEN conjunct2,
      THEN conjunct2, rule_format, of 9]
  from t6 have a: "\<exists>s'. run example_vm example_extern (code ?res) 6 ?entry = Some s'
      \<and> thread_state example_vm s' = 4
      \<and> frame_anchor example_vm s' = (regs s' sp, regs s' rfp, 2)"
    by (simp add: vm) blast
  from t9 have b: "\<exists>s'. run example_vm example_extern (code ?res) 9 ?resumed = Some s'
      \<and> thread_state example_vm s' = 8
      \<and> frame_anchor example_vm s' = (0, 0, 0)"
    by (simp add: vm) blast
  from a b show ?thesis by (simp only: simp_thms)
qed

end
